theory Spec2Isabelle
  imports Complex_Main "HOL-Library.Sublist"
begin

section \<open>Text and character classes\<close>

text \<open>
  A Python \<open>str\<close> is a sequence of Unicode code points, and \<open>len\<close> counts code points.
  A text is therefore a list of code points, each a natural number.
\<close>

type_synonym cp = nat
type_synonym ustring = "cp list"

definition ustr :: "string \<Rightarrow> ustring" where
  "ustr s = map of_char s"

text \<open>
  The classes \<open>\s\<close>, \<open>\d\<close> and \<open>\w\<close> of a \<open>str\<close> pattern are Unicode classes:
  \<open>\s\<close> is \<open>str.isspace\<close>, \<open>\d\<close> is \<open>str.isdecimal\<close> (category Nd), and \<open>\w\<close> is
  \<open>str.isalnum\<close> or the underscore, where \<open>str.isalnum\<close> is by definition one of
  \<open>isalpha\<close>, \<open>isdecimal\<close>, \<open>isdigit\<close>, \<open>isnumeric\<close>. \<open>str.strip\<close> removes
  \<open>str.isspace\<close> characters.

  The whitespace set is written out in full. For the other two classes the table is
  written out on the code points the program names: Basic Latin, the two danda signs,
  the Gujarati block and the two dashes of the punctuation class. The rest of the
  Unicode database is not part of the repository and is a parameter \<open>U\<close> of the model:
  \<open>decimal_ext\<close> is \<open>isdecimal\<close> there, and \<open>alnum_ext\<close> is \<open>isalpha\<close>, \<open>isdigit\<close> or
  \<open>isnumeric\<close> there.
\<close>

record ucd =
  decimal_ext :: "cp \<Rightarrow> bool"
  alnum_ext :: "cp \<Rightarrow> bool"

definition is_space :: "cp \<Rightarrow> bool" where
  "is_space c \<longleftrightarrow>
     (0x09 \<le> c \<and> c \<le> 0x0D) \<or> (0x1C \<le> c \<and> c \<le> 0x20) \<or> c = 0x85 \<or> c = 0xA0 \<or>
     c = 0x1680 \<or> (0x2000 \<le> c \<and> c \<le> 0x200A) \<or> c = 0x2028 \<or> c = 0x2029 \<or>
     c = 0x202F \<or> c = 0x205F \<or> c = 0x3000"

definition gujarati_block :: "cp \<Rightarrow> bool" where
  "gujarati_block c \<longleftrightarrow> 0xA80 \<le> c \<and> c \<le> 0xAFF"

definition other_named :: "cp \<Rightarrow> bool" where
  "other_named c \<longleftrightarrow> c = 0x964 \<or> c = 0x965 \<or> c = 0x2013 \<or> c = 0x2014"

definition is_decimal :: "ucd \<Rightarrow> cp \<Rightarrow> bool" where
  "is_decimal U c =
     (if c < 0x80 then 0x30 \<le> c \<and> c \<le> 0x39
      else if gujarati_block c then 0xAE6 \<le> c \<and> c \<le> 0xAEF
      else if other_named c then False
      else decimal_ext U c)"

text \<open>Gujarati letters and digits are alphanumeric; the vowel signs and other marks are not.\<close>

definition gujarati_alnum :: "cp \<Rightarrow> bool" where
  "gujarati_alnum c \<longleftrightarrow>
     (0xA85 \<le> c \<and> c \<le> 0xA8D) \<or> (0xA8F \<le> c \<and> c \<le> 0xA91) \<or> (0xA93 \<le> c \<and> c \<le> 0xAA8) \<or>
     (0xAAA \<le> c \<and> c \<le> 0xAB0) \<or> (0xAB2 \<le> c \<and> c \<le> 0xAB3) \<or> (0xAB5 \<le> c \<and> c \<le> 0xAB9) \<or>
     c = 0xABD \<or> c = 0xAD0 \<or> (0xAE0 \<le> c \<and> c \<le> 0xAE1) \<or> (0xAE6 \<le> c \<and> c \<le> 0xAEF) \<or>
     c = 0xAF9"

definition is_alnum :: "ucd \<Rightarrow> cp \<Rightarrow> bool" where
  "is_alnum U c =
     (if c < 0x80 then (0x30 \<le> c \<and> c \<le> 0x39) \<or> (0x41 \<le> c \<and> c \<le> 0x5A) \<or> (0x61 \<le> c \<and> c \<le> 0x7A)
      else if gujarati_block c then gujarati_alnum c
      else if other_named c then False
      else alnum_ext U c \<or> decimal_ext U c)"

definition is_word :: "ucd \<Rightarrow> cp \<Rightarrow> bool" where
  "is_word U c \<longleftrightarrow> is_alnum U c \<or> c = 0x5F"

definition strip :: "ustring \<Rightarrow> ustring" where
  "strip s = rev (dropWhile is_space (rev (dropWhile is_space s)))"

section \<open>Regular expressions as the program uses them\<close>

text \<open>
  The patterns of the program are built from character classes, greedy repetition of a
  single character class, the word boundary \<open>\b\<close>, the anchors \<open>^\<close> and \<open>$\<close>,
  concatenation and alternation. \<open>re\<close> is a backtracking matcher: it explores the
  alternatives in a fixed order and reports the first match it finds.
\<close>

datatype citem = Chr cp | Rng cp cp | Digit | Space

datatype atom = CSet "citem list" | CNot "citem list"

datatype regex =
    Atom atom
  | Greedy atom nat "nat option"
  | WordB
  | Caret
  | Dollar
  | Seq regex regex
  | Alt regex regex

fun in_item :: "ucd \<Rightarrow> citem \<Rightarrow> cp \<Rightarrow> bool" where
  "in_item U (Chr d) c = (c = d)"
| "in_item U (Rng lo hi) c = (lo \<le> c \<and> c \<le> hi)"
| "in_item U Digit c = is_decimal U c"
| "in_item U Space c = is_space c"

fun in_atom :: "ucd \<Rightarrow> atom \<Rightarrow> cp \<Rightarrow> bool" where
  "in_atom U (CSet its) c = list_ex (\<lambda>i. in_item U i c) its"
| "in_atom U (CNot its) c = (\<not> list_ex (\<lambda>i. in_item U i c) its)"

text \<open>
  \<open>greedy U a lo hi s\<close>: the numbers of characters that the repetition \<open>a{lo,hi}\<close> can
  take from the front of \<open>s\<close>, in the order the matcher tries them: one more character
  first, stopping here last.
\<close>

fun greedy :: "ucd \<Rightarrow> atom \<Rightarrow> nat \<Rightarrow> nat option \<Rightarrow> ustring \<Rightarrow> nat list" where
  "greedy U a lo hi [] = (if lo = 0 then [0] else [])"
| "greedy U a lo hi (c # cs) =
     (if in_atom U a c \<and> hi \<noteq> Some 0
      then map Suc (greedy U a (lo - 1) (map_option (\<lambda>h. h - 1) hi) cs) else [])
     @ (if lo = 0 then [0] else [])"

text \<open>The character just before the position reached after \<open>n\<close> characters of \<open>s\<close>.\<close>

definition prev_cp :: "cp option \<Rightarrow> ustring \<Rightarrow> nat \<Rightarrow> cp option" where
  "prev_cp p s n = (case rev (take n s) of [] \<Rightarrow> p | c # _ \<Rightarrow> Some c)"

definition word_before :: "ucd \<Rightarrow> cp option \<Rightarrow> bool" where
  "word_before U p = (case p of None \<Rightarrow> False | Some c \<Rightarrow> is_word U c)"

definition word_here :: "ucd \<Rightarrow> ustring \<Rightarrow> bool" where
  "word_here U s = (case s of [] \<Rightarrow> False | c # _ \<Rightarrow> is_word U c)"

text \<open>
  \<open>ends U r p s\<close>: the lengths of the matches of \<open>r\<close> that start at the front of \<open>s\<close>,
  where \<open>p\<close> is the character before it (\<open>None\<close> at the start of the string), in the
  order in which the backtracking matcher finds them. The first one is the match.
\<close>

fun ends :: "ucd \<Rightarrow> regex \<Rightarrow> cp option \<Rightarrow> ustring \<Rightarrow> nat list" where
  "ends U (Atom a) p s = (case s of [] \<Rightarrow> [] | c # _ \<Rightarrow> if in_atom U a c then [1] else [])"
| "ends U (Greedy a lo hi) p s = greedy U a lo hi s"
| "ends U WordB p s = (if word_before U p \<noteq> word_here U s then [0] else [])"
| "ends U Caret p s = (if p = None then [0] else [])"
| "ends U Dollar p s = (if s = [] \<or> s = [0x0A] then [0] else [])"
| "ends U (Seq r1 r2) p s =
     concat (map (\<lambda>n. map ((+) n) (ends U r2 (prev_cp p s n) (drop n s))) (ends U r1 p s))"
| "ends U (Alt r1 r2) p s = ends U r1 p s @ ends U r2 p s"

definition match_at :: "ucd \<Rightarrow> regex \<Rightarrow> cp option \<Rightarrow> ustring \<Rightarrow> nat option" where
  "match_at U r p s = (case ends U r p s of [] \<Rightarrow> None | n # _ \<Rightarrow> Some n)"

text \<open>\<open>re.match(pattern, string)\<close>: a match at the start of the string, or \<open>None\<close>.\<close>

definition re_match :: "ucd \<Rightarrow> regex \<Rightarrow> ustring \<Rightarrow> nat option" where
  "re_match U r s = match_at U r None s"

fun cat :: "regex list \<Rightarrow> regex" where
  "cat [r] = r"
| "cat (r # rs) = Seq r (cat rs)"
| "cat [] = Greedy (CSet []) 0 (Some 0)"

definition lit :: "char \<Rightarrow> regex" where
  "lit c = Atom (CSet [Chr (of_char c)])"

definition lits :: "string \<Rightarrow> citem list" where
  "lits s = map (\<lambda>c. Chr (of_char c)) s"

definition literal :: "string \<Rightarrow> regex" where
  "literal s = cat (map lit s)"

definition plus :: "atom \<Rightarrow> regex" where
  "plus a = Greedy a 1 None"

definition star :: "atom \<Rightarrow> regex" where
  "star a = Greedy a 0 None"

definition upper :: citem where "upper = Rng 0x41 0x5A"
definition lower :: citem where "lower = Rng 0x61 0x7A"
definition digit09 :: citem where "digit09 = Rng 0x30 0x39"

section \<open>GujaratiTokenizer\<close>

datatype category =
    Email | Url | Decimal_number | Integer | Date | Punctuation
  | Gujarati_word | English_word | Whitespace | Other

definition gujarati_char_pattern :: atom where
  "gujarati_char_pattern = CSet [Rng 0xA80 0xAFF]"

text \<open>
  \<open>self.patterns\<close>: the dictionary from category name to pattern. The punctuation class
  holds the two danda signs, \<open>. , ! ? ; :\<close>, the two quotes (0x22, 0x27), the brackets,
  the hyphen, en dash and em dash, \<open>_ /\<close>, the backslash (0x5C),
  \<open>@ # $ % ^ & * + = < > |\<close>, the backquote (0x60) and the tilde.
\<close>

definition punctuation_set :: "citem list" where
  "punctuation_set =
     [Chr 0x964, Chr 0x965] @ lits ''.,!?;:'' @ [Chr 0x22, Chr 0x27] @ lits ''()[]{}-'' @
     [Chr 0x2013, Chr 0x2014] @ lits ''_/'' @ [Chr 0x5C] @ lits ''@#$%^&*+=<>|'' @
     [Chr 0x60] @ lits ''~''"

definition email_re :: regex where
  "email_re = cat [WordB, plus (CSet ([upper, lower, digit09] @ lits ''._%+-'')), lit CHR ''@'',
     plus (CSet ([upper, lower, digit09] @ lits ''.-'')), lit CHR ''.'',
     Greedy (CSet ([upper] @ lits ''|'' @ [lower])) 2 None, WordB]"

definition url_re :: regex where
  "url_re =
     Alt (cat [literal ''http'', Greedy (CSet (lits ''s'')) 0 (Some 1), literal ''://'', plus (CNot [Space])])
    (Alt (cat [literal ''www'', lit CHR ''.'', plus (CNot [Space])])
         (cat [WordB, plus (CSet ([lower, upper, digit09] @ lits ''.-'')), lit CHR ''.'',
               Greedy (CSet [lower, upper]) 2 None, star (CNot [Space])]))"

definition decimal_number_re :: regex where
  "decimal_number_re = cat [WordB, plus (CSet [Digit]), lit CHR ''.'', plus (CSet [Digit]), WordB]"

definition integer_re :: regex where
  "integer_re = cat [WordB, plus (CSet [Digit]), WordB]"

definition date_re :: regex where
  "date_re =
     Alt (cat [WordB, Greedy (CSet [Digit]) 1 (Some 2), Atom (CSet (lits ''/-'')),
               Greedy (CSet [Digit]) 1 (Some 2), Atom (CSet (lits ''/-'')),
               Greedy (CSet [Digit]) 2 (Some 4), WordB])
         (cat [WordB, Greedy (CSet [Digit]) 4 (Some 4), Atom (CSet (lits ''/-'')),
               Greedy (CSet [Digit]) 1 (Some 2), Atom (CSet (lits ''/-'')),
               Greedy (CSet [Digit]) 1 (Some 2), WordB])"

fun patterns :: "category \<Rightarrow> regex option" where
  "patterns Email = Some email_re"
| "patterns Url = Some url_re"
| "patterns Decimal_number = Some decimal_number_re"
| "patterns Integer = Some integer_re"
| "patterns Date = Some date_re"
| "patterns Punctuation = Some (Atom (CSet punctuation_set))"
| "patterns Gujarati_word = Some (plus gujarati_char_pattern)"
| "patterns English_word = Some (plus (CSet [upper, lower]))"
| "patterns Whitespace = Some (plus (CSet [Space]))"
| "patterns Other = None"

text \<open>The keys of \<open>self.patterns\<close> in insertion order, the order of \<open>values()\<close>.\<close>

definition pattern_keys :: "category list" where
  "pattern_keys = [Email, Url, Decimal_number, Integer, Date, Punctuation,
                   Gujarati_word, English_word, Whitespace]"

text \<open>\<open>re.match(self.patterns[k], token)\<close> as a truth value.\<close>

definition matches :: "ucd \<Rightarrow> category \<Rightarrow> ustring \<Rightarrow> bool" where
  "matches U k token = (case patterns k of None \<Rightarrow> False | Some r \<Rightarrow> re_match U r token \<noteq> None)"

definition classify_token :: "ucd \<Rightarrow> ustring \<Rightarrow> category" where
  "classify_token U token =
     (if matches U Email token then Email
      else if matches U Url token then Url
      else if matches U Decimal_number token then Decimal_number
      else if matches U Date token then Date
      else if matches U Integer token then Integer
      else if matches U Punctuation token then Punctuation
      else if matches U Gujarati_word token then Gujarati_word
      else if matches U English_word token then English_word
      else Other)"

text \<open>
  \<open>self.token_pattern\<close>: every pattern of the dictionary in parentheses, joined by
  \<open>|\<close>. Each alternative is a capture group of its own.
\<close>

fun alternation :: "regex list \<Rightarrow> regex" where
  "alternation [r] = r"
| "alternation (r # rs) = Alt r (alternation rs)"
| "alternation [] = Atom (CSet [])"

definition token_pattern :: regex where
  "token_pattern = alternation (map (\<lambda>k. the (patterns k)) pattern_keys)"

text \<open>
  A match of \<open>self.compiled_pattern\<close> at a position: the first group, in the order of the
  alternation, whose pattern matches there, with the length of its match.
\<close>

fun group_match :: "ucd \<Rightarrow> category list \<Rightarrow> cp option \<Rightarrow> ustring \<Rightarrow> (category \<times> nat) option" where
  "group_match U [] p s = None"
| "group_match U (k # ks) p s =
     (case patterns k of
        None \<Rightarrow> group_match U ks p s
      | Some r \<Rightarrow>
          (case match_at U r p s of
             Some n \<Rightarrow> Some (k, n)
           | None \<Rightarrow> group_match U ks p s))"

text \<open>
  The tuple \<open>findall\<close> returns for a match of a pattern with several groups: the text of
  the group that took part, and the empty string for every other group.
\<close>

definition group_tuple :: "category \<Rightarrow> ustring \<Rightarrow> ustring list" where
  "group_tuple k txt = map (\<lambda>j. if j = k then txt else []) pattern_keys"

text \<open>
  \<open>self.compiled_pattern.findall(text)\<close>: the non-overlapping matches from left to
  right. Where nothing matches, the scan moves on by one character; after a match it
  goes on behind the match (behind the next character after an empty match).
\<close>

fun findall :: "ucd \<Rightarrow> cp option \<Rightarrow> ustring \<Rightarrow> ustring list list" where
  "findall U p [] =
     (case group_match U pattern_keys p [] of
        None \<Rightarrow> []
      | Some (k, n) \<Rightarrow> [group_tuple k []])"
| "findall U p (c # cs) =
     (case group_match U pattern_keys p (c # cs) of
        None \<Rightarrow> findall U (Some c) cs
      | Some (k, n) \<Rightarrow>
          group_tuple k (take n (c # cs)) #
          (if n = 0 then findall U (Some c) cs
           else findall U (prev_cp p (c # cs) n) (drop n (c # cs))))"

text \<open>
  \<open>pattern.split(string)\<close> for a pattern without groups: the pieces between the
  matches. \<open>cur\<close> is the piece being collected. An empty match does not split.
\<close>

fun split_from :: "ucd \<Rightarrow> regex \<Rightarrow> ustring \<Rightarrow> cp option \<Rightarrow> ustring \<Rightarrow> ustring list" where
  "split_from U r cur p [] = [cur]"
| "split_from U r cur p (c # cs) =
     (case match_at U r p (c # cs) of
        None \<Rightarrow> split_from U r (cur @ [c]) (Some c) cs
      | Some n \<Rightarrow>
          if n = 0 then split_from U r (cur @ [c]) (Some c) cs
          else cur # split_from U r [] (prev_cp p (c # cs) n) (drop n (c # cs)))"

definition re_split :: "ucd \<Rightarrow> regex \<Rightarrow> ustring \<Rightarrow> ustring list" where
  "re_split U r s = split_from U r [] None s"

definition terminators :: "citem list" where
  "terminators = [Chr 0x964, Chr 0x965] @ lits ''.!?''"

definition sentence_pattern :: regex where
  "sentence_pattern = Seq (plus (CSet terminators)) (star (CSet [Space]))"

definition sentence_tokenize :: "ucd \<Rightarrow> ustring \<Rightarrow> ustring list" where
  "sentence_tokenize U txt =
     map strip (filter (\<lambda>s. strip s \<noteq> []) (re_split U sentence_pattern (strip txt)))"

datatype error = StopIteration | ZeroDivisionError

text \<open>\<open>next(group for group in match if group)\<close> raises when every group is empty.\<close>

definition next_group :: "ustring list \<Rightarrow> error + ustring" where
  "next_group m = (case filter (\<lambda>g. g \<noteq> []) m of [] \<Rightarrow> Inl StopIteration | g # _ \<Rightarrow> Inr g)"

definition whitespace_only :: regex where
  "whitespace_only = cat [Caret, plus (CSet [Space]), Dollar]"

fun token_loop :: "ucd \<Rightarrow> ustring list list \<Rightarrow> ustring list \<Rightarrow> error + ustring list" where
  "token_loop U [] tokens = Inr tokens"
| "token_loop U (m # ms) tokens =
     (case next_group m of
        Inl e \<Rightarrow> Inl e
      | Inr token \<Rightarrow>
          if re_match U whitespace_only token = None
          then token_loop U ms (tokens @ [token])
          else token_loop U ms tokens)"

definition word_tokenize :: "ucd \<Rightarrow> ustring \<Rightarrow> error + ustring list" where
  "word_tokenize U txt = token_loop U (findall U None txt) []"

record sentence =
  sentence_text :: ustring
  words :: "ustring list"
  classified_words :: "(ustring \<times> category) list"
  word_count :: nat

record document =
  original_text :: ustring
  sentences :: "sentence list"
  total_words :: nat
  total_characters :: nat

fun paragraph_loop :: "ucd \<Rightarrow> ustring list \<Rightarrow> document \<Rightarrow> error + document" where
  "paragraph_loop U [] result = Inr result"
| "paragraph_loop U (s # ss) result =
     (case word_tokenize U s of
        Inl e \<Rightarrow> Inl e
      | Inr ws \<Rightarrow>
          paragraph_loop U ss
            (result\<lparr>sentences := sentences result @
                       [\<lparr>sentence_text = s, words = ws,
                         classified_words = map (\<lambda>w. (w, classify_token U w)) ws,
                         word_count = length ws\<rparr>],
                    total_words := total_words result + length ws\<rparr>))"

definition tokenize_paragraph :: "ucd \<Rightarrow> ustring \<Rightarrow> error + document" where
  "tokenize_paragraph U paragraph =
     paragraph_loop U (sentence_tokenize U paragraph)
       \<lparr>original_text = paragraph, sentences = [], total_words = 0,
        total_characters = length paragraph\<rparr>"

section \<open>Corpus aggregation\<close>

text \<open>
  A record of the dataset is a dictionary; \<open>example.get('text', '')\<close> reads its text
  field, with the empty string when the field is absent.
\<close>

type_synonym example = "string \<rightharpoonup> ustring"

definition get_text :: "example \<Rightarrow> ustring" where
  "get_text ex = (case ex ''text'' of None \<Rightarrow> [] | Some t \<Rightarrow> t)"

text \<open>
  The loop of \<open>process_dataset\<close> over \<open>enumerate(dataset)\<close>: \<open>i\<close> is the index of the
  record at the head of the remaining records.
\<close>

fun dataset_loop :: "ucd \<Rightarrow> int \<Rightarrow> int \<Rightarrow> example list \<Rightarrow> document list \<Rightarrow> error + document list" where
  "dataset_loop U max_examples i [] processed_data = Inr processed_data"
| "dataset_loop U max_examples i (ex # rest) processed_data =
     (if i \<ge> max_examples then Inr processed_data
      else if strip (get_text ex) = [] then dataset_loop U max_examples (i + 1) rest processed_data
      else (case tokenize_paragraph U (get_text ex) of
              Inl e \<Rightarrow> Inl e
            | Inr tokenized \<Rightarrow>
                dataset_loop U max_examples (i + 1) rest (processed_data @ [tokenized])))"

definition process_dataset :: "ucd \<Rightarrow> example list \<Rightarrow> int \<Rightarrow> error + document list" where
  "process_dataset U dataset max_examples = dataset_loop U max_examples 0 dataset []"

subsection \<open>Python numbers\<close>

text \<open>
  A Python \<open>float\<close> is a binary64 number. The values that occur here are not negative,
  so a float is written \<open>Float m e\<close> for the number \<open>m * 2^e\<close>, with \<open>m = 0\<close> and
  \<open>e = 0\<close> for zero and \<open>2^52 \<le> m < 2^53\<close> otherwise. The exponent range of binary64
  is not modelled: quotients of list lengths and their roundings stay far inside it.
\<close>

datatype pyfloat = Float nat int

definition float_val :: "pyfloat \<Rightarrow> rat" where
  "float_val f = (case f of Float m e \<Rightarrow> of_nat m * (2 powi e))"

datatype pynum = PInt int | PFloat pyfloat

fun bit_length :: "nat \<Rightarrow> nat" where
  "bit_length n = (if n = 0 then 0 else Suc (bit_length (n div 2)))"

declare bit_length.simps [simp del]

text \<open>\<open>a / b\<close> rounded to the nearest integer, a half to the even neighbour.\<close>

definition round_half_even :: "nat \<Rightarrow> nat \<Rightarrow> nat" where
  "round_half_even a b =
     (let q = a div b; r = a mod b
      in if 2 * r < b then q else if b < 2 * r then q + 1 else if even q then q else q + 1)"

text \<open>\<open>a / (b * 2^e)\<close> for an integer \<open>e\<close>, as a fraction of natural numbers.\<close>

definition scaled :: "nat \<Rightarrow> nat \<Rightarrow> int \<Rightarrow> nat \<times> nat" where
  "scaled a b e = (if 0 \<le> e then (a, b * 2 ^ nat e) else (a * 2 ^ nat (- e), b))"

text \<open>
  The binary64 number nearest to \<open>a / b\<close> (ties to even), for \<open>b > 0\<close>: the exponent
  \<open>e\<close> is chosen so that \<open>2^52 \<le> a / (b * 2^e) < 2^53\<close>, and the quotient is rounded
  to an integer there.
\<close>

definition nearest_float :: "nat \<Rightarrow> nat \<Rightarrow> pyfloat" where
  "nearest_float a b =
     (if a = 0 then Float 0 0
      else
        let k = int (bit_length a) - int (bit_length b);
            (a1, b1) = scaled a b k;
            e = (if b1 \<le> a1 then k else k - 1) - 52;
            (a2, b2) = scaled a b e;
            m = round_half_even a2 b2
        in if m = 2 ^ 53 then Float (2 ^ 52) (e + 1) else Float m e)"

text \<open>\<open>a / b\<close> on integers that are not negative: true division, which raises on zero.\<close>

definition true_div :: "nat \<Rightarrow> nat \<Rightarrow> error + pynum" where
  "true_div a b = (if b = 0 then Inl ZeroDivisionError else Inr (PFloat (nearest_float a b)))"

text \<open>
  \<open>round(x, ndigits)\<close> with \<open>ndigits \<ge> 0\<close>. An \<open>int\<close> is returned as it is. A float is
  rounded to the nearest multiple of \<open>10^-ndigits\<close>, a half to the even neighbour, and
  the result is the float nearest to that decimal number.
\<close>

definition float_round :: "pyfloat \<Rightarrow> nat \<Rightarrow> pyfloat" where
  "float_round f ndigits =
     (case f of Float m e \<Rightarrow>
        let (a, b) = scaled m 1 (- e)
        in nearest_float (round_half_even (a * 10 ^ ndigits) b) (10 ^ ndigits))"

fun py_round :: "pynum \<Rightarrow> nat \<Rightarrow> pynum" where
  "py_round (PInt i) ndigits = PInt i"
| "py_round (PFloat f) ndigits = PFloat (float_round f ndigits)"

subsection \<open>compute\_corpus\_statistics\<close>

record statistics =
  total_number_of_sentences :: nat
  total_number_of_words :: nat
  total_number_of_characters :: nat
  average_sentence_length :: pynum
  average_word_length :: pynum
  type_token_ratio :: pynum
  total_unique_words :: nat

text \<open>
  The counters of the two nested loops: \<open>total_sentences\<close>, \<open>total_words\<close>,
  \<open>total_characters\<close> and \<open>all_words\<close>.
\<close>

record counters =
  n_sentences :: nat
  n_words :: nat
  n_characters :: nat
  all_words :: "ustring list"

fun sentence_loop :: "sentence list \<Rightarrow> counters \<Rightarrow> counters" where
  "sentence_loop [] c = c"
| "sentence_loop (s # ss) c =
     sentence_loop ss
       (c\<lparr>n_sentences := n_sentences c + 1,
          n_words := n_words c + length (words s),
          all_words := all_words c @ words s\<rparr>)"

fun document_loop :: "document list \<Rightarrow> counters \<Rightarrow> counters" where
  "document_loop [] c = c"
| "document_loop (d # ds) c =
     document_loop ds
       (sentence_loop (sentences d) (c\<lparr>n_characters := n_characters c + total_characters d\<rparr>))"

text \<open>
  The three ratios as the function computes them before it builds its result:
  \<open>x / y if y > 0 else 0\<close>.
\<close>

definition guarded_div :: "nat \<Rightarrow> nat \<Rightarrow> error + pynum" where
  "guarded_div a b = (if b > 0 then true_div a b else Inr (PInt 0))"

definition ratios :: "counters \<Rightarrow> error + (pynum \<times> pynum \<times> pynum)" where
  "ratios c =
     (case guarded_div (n_words c) (n_sentences c) of
        Inl e \<Rightarrow> Inl e
      | Inr avg_sentence_length \<Rightarrow>
          (case guarded_div (sum_list (map length (all_words c))) (n_words c) of
             Inl e \<Rightarrow> Inl e
           | Inr avg_word_length \<Rightarrow>
               (case guarded_div (card (set (all_words c))) (n_words c) of
                  Inl e \<Rightarrow> Inl e
                | Inr ttr \<Rightarrow> Inr (avg_sentence_length, avg_word_length, ttr))))"

text \<open>The counters after the loop over all documents.\<close>

definition corpus_counters :: "document list \<Rightarrow> counters" where
  "corpus_counters processed_data =
     document_loop processed_data
       \<lparr>n_sentences = 0, n_words = 0, n_characters = 0, all_words = []\<rparr>"

definition compute_corpus_statistics :: "document list \<Rightarrow> error + statistics" where
  "compute_corpus_statistics processed_data =
     (let c = corpus_counters processed_data
      in case ratios c of
           Inl e \<Rightarrow> Inl e
         | Inr (avg_sentence_length, avg_word_length, ttr) \<Rightarrow>
             Inr \<lparr>total_number_of_sentences = n_sentences c,
                  total_number_of_words = n_words c,
                  total_number_of_characters = n_characters c,
                  average_sentence_length = py_round avg_sentence_length 2,
                  average_word_length = py_round avg_word_length 2,
                  type_token_ratio = py_round ttr 4,
                  total_unique_words = card (set (all_words c))\<rparr>)"

section \<open>The specification's wording and its examples\<close>

text \<open>
  The precedence order of the specification, and its reading of classification: the
  first rule of that order whose anchored match succeeds, \<open>other\<close> when there is none.
\<close>

definition precedence :: "category list" where
  "precedence = [Email, Url, Decimal_number, Date, Integer, Punctuation,
                 Gujarati_word, English_word]"

definition first_rule :: "ucd \<Rightarrow> ustring \<Rightarrow> category" where
  "first_rule U token =
     (case find (\<lambda>k. matches U k token) precedence of None \<Rightarrow> Other | Some k \<Rightarrow> k)"

text \<open>A Unicode database with no decimal digit and no letter outside the written table.\<close>

definition no_ext :: ucd where
  "no_ext = \<lparr>decimal_ext = (\<lambda>c. False), alnum_ext = (\<lambda>c. False)\<rparr>"

text \<open>
  The example paragraph of the specification, as code points: three Gujarati words and
  a fourth, a full stop (0x2E); five Gujarati words, a danda (0x964); two Gujarati
  words, \<open>test@example.com\<close>, one Gujarati word, a full stop.
\<close>

definition example_paragraph :: ustring where
  "example_paragraph =
     [0xA86, 0xA9C, 0xAC7, 0x20, 0xAB9, 0xAC1, 0xA82, 0x20, 0xAA6, 0xAC1, 0xA95, 0xABE, 0xAA8,
      0xAC7, 0x20, 0xA97, 0xAAF, 0xACB, 0x2E, 0x20,
      0xAAE, 0xAC7, 0xA82, 0x20, 0xA96, 0xABE, 0xAA3, 0xABE, 0xAA8, 0xAC0, 0x20, 0xAB5, 0xAB8,
      0xACD, 0xAA4, 0xAC1, 0xA93, 0x20, 0xA96, 0xAB0, 0xAC0, 0xAA6, 0xAC0, 0x964, 0x20,
      0xAAE, 0xABE, 0xAB0, 0xAC1, 0xA82, 0x20, 0xA87, 0xAAE, 0xAC7, 0xA87, 0xAB2, 0x20]
     @ ustr ''test@example.com'' @ [0x20, 0xA9B, 0xAC7, 0x2E]"

text \<open>The third sentence of the example as the specification writes it.\<close>

definition example_sentence :: ustring where
  "example_sentence =
     [0xAAE, 0xABE, 0xAB0, 0xAC1, 0xA82, 0x20, 0xA87, 0xAAE, 0xAC7, 0xA87, 0xAB2, 0x20]
     @ ustr ''test@example.com'' @ [0x20, 0xA9B, 0xAC7]"

text \<open>The least number of characters a match of a pattern takes.\<close>

fun min_len :: "regex \<Rightarrow> nat" where
  "min_len (Atom a) = 1"
| "min_len (Greedy a lo hi) = lo"
| "min_len WordB = 0"
| "min_len Caret = 0"
| "min_len Dollar = 0"
| "min_len (Seq r1 r2) = min_len r1 + min_len r2"
| "min_len (Alt r1 r2) = min (min_len r1) (min_len r2)"

text \<open>The sentence terminators: danda, double danda, full stop, \<open>!\<close> and \<open>?\<close>.\<close>

definition is_terminator :: "cp \<Rightarrow> bool" where
  "is_terminator c \<longleftrightarrow> c = 0x964 \<or> c = 0x965 \<or> c = 0x2E \<or> c = 0x21 \<or> c = 0x3F"

text \<open>
  The characters of the English word class, the Gujarati word class and the
  punctuation class.
\<close>

definition lettered :: "ucd \<Rightarrow> cp \<Rightarrow> bool" where
  "lettered U c \<longleftrightarrow>
     in_atom U (CSet [upper, lower]) c \<or> in_atom U gujarati_char_pattern c \<or>
     in_atom U (CSet punctuation_set) c"

text \<open>The sentences and the word tokens of a collection of documents, in order.\<close>

definition corpus_sentences :: "document list \<Rightarrow> sentence list" where
  "corpus_sentences ds = concat (map sentences ds)"

definition corpus_words :: "document list \<Rightarrow> ustring list" where
  "corpus_words ds = concat (map words (corpus_sentences ds))"

text \<open>
  The quotient of the specification: \<open>0\<close> when the divisor is \<open>0\<close>, and the quotient as
  a float otherwise.
\<close>

definition quotient :: "nat \<Rightarrow> nat \<Rightarrow> pynum" where
  "quotient a b = (if b = 0 then PInt 0 else PFloat (nearest_float a b))"

text \<open>The texts of the records that \<open>process_dataset\<close> does not skip.\<close>

definition nonblank_texts :: "example list \<Rightarrow> ustring list" where
  "nonblank_texts dataset = filter (\<lambda>t. strip t \<noteq> []) (map get_text dataset)"

text \<open>A dataset of three records: the first is blank, the other two are not.\<close>

definition short_dataset :: "example list" where
  "short_dataset = [[''text'' \<mapsto> ustr '' ''], [''text'' \<mapsto> ustr ''a''], [''text'' \<mapsto> ustr ''b'']]"

text \<open>
  The document of the text \<open>a b cc\<close>: one sentence of the three tokens \<open>a\<close>, \<open>b\<close>
  and \<open>cc\<close>, four characters in three tokens.
\<close>

definition small_document :: document where
  "small_document =
     \<lparr>original_text = ustr ''a b cc'',
      sentences =
        [\<lparr>sentence_text = ustr ''a b cc'',
          words = [ustr ''a'', ustr ''b'', ustr ''cc''],
          classified_words =
            [(ustr ''a'', English_word), (ustr ''b'', English_word), (ustr ''cc'', English_word)],
          word_count = 3\<rparr>],
      total_words = 3,
      total_characters = 6\<rparr>"

text \<open>
  The document of the text \<open>a a b\<close>: one sentence of three tokens, two of them
  distinct.
\<close>

definition repeated_document :: document where
  "repeated_document =
     \<lparr>original_text = ustr ''a a b'',
      sentences =
        [\<lparr>sentence_text = ustr ''a a b'',
          words = [ustr ''a'', ustr ''a'', ustr ''b''],
          classified_words =
            [(ustr ''a'', English_word), (ustr ''a'', English_word), (ustr ''b'', English_word)],
          word_count = 3\<rparr>],
      total_words = 3,
      total_characters = 5\<rparr>"

text \<open>
  ASCII digits; a position between two of them; and a run of ASCII digits \<open>ds\<close> between
  \<open>pre\<close> and \<open>post\<close> that has no word character next to it on either side.
\<close>

definition ascii_digit :: "cp \<Rightarrow> bool" where
  "ascii_digit c \<longleftrightarrow> 0x30 \<le> c \<and> c \<le> 0x39"

definition between_digits :: "cp option \<Rightarrow> ustring \<Rightarrow> bool" where
  "between_digits p s \<longleftrightarrow>
     (case p of None \<Rightarrow> False | Some a \<Rightarrow> ascii_digit a) \<and>
     (case s of [] \<Rightarrow> False | c # _ \<Rightarrow> ascii_digit c)"

definition isolated_digits :: "ucd \<Rightarrow> ustring \<Rightarrow> ustring \<Rightarrow> ustring \<Rightarrow> bool" where
  "isolated_digits U pre ds post \<longleftrightarrow>
     ds \<noteq> [] \<and> list_all ascii_digit ds \<and>
     (case rev pre of [] \<Rightarrow> True | c # _ \<Rightarrow> \<not> is_word U c) \<and>
     (case post of [] \<Rightarrow> True | c # _ \<Rightarrow> \<not> is_word U c)"

text \<open>A pattern none of whose matches ends between two ASCII digits.\<close>

definition no_split :: "ucd \<Rightarrow> regex \<Rightarrow> bool" where
  "no_split U r \<longleftrightarrow>
     (\<forall>p s n. match_at U r p s = Some n \<longrightarrow> \<not> between_digits (prev_cp p s n) (drop n s))"

section \<open>Evaluation\<close>

lemmas float_defs =
  nearest_float_def scaled_def round_half_even_def float_round_def true_div_def
  guarded_div_def quotient_def


lemmas class_defs =
  is_word_def is_alnum_def is_decimal_def is_space_def gujarati_block_def other_named_def
  gujarati_alnum_def

lemmas regex_defs =
  re_match_def match_at_def prev_cp_def word_before_def word_here_def
  plus_def star_def lit_def lits_def literal_def upper_def lower_def digit09_def

lemmas pattern_defs =
  email_re_def url_re_def decimal_number_re_def integer_re_def date_re_def
  punctuation_set_def gujarati_char_pattern_def pattern_keys_def

lemmas tokenizer_defs =
  classify_token_def matches_def word_tokenize_def group_tuple_def next_group_def
  whitespace_only_def sentence_tokenize_def re_split_def sentence_pattern_def
  terminators_def strip_def ustr_def

lemmas eval_defs = class_defs regex_defs pattern_defs tokenizer_defs

section \<open>Properties of the matcher\<close>

lemma greedy_bounds:
  "n \<in> set (greedy U a lo hi s) \<Longrightarrow> lo \<le> n \<and> n \<le> length s"
proof (induction U a lo hi s arbitrary: n rule: greedy.induct)
  case (1 U a lo hi)
  then show ?case by (simp split: if_splits)
next
  case (2 U a lo hi c cs)
  from "2.prems" consider
      (more) m where "in_atom U a c" "hi \<noteq> Some 0" "n = Suc m"
        "m \<in> set (greedy U a (lo - 1) (map_option (\<lambda>h. h - 1) hi) cs)"
    | (stop) "lo = 0" "n = 0"
    by (auto split: if_splits)
  then show ?case
  proof cases
    case more
    from "2.IH"[OF _ more(4)] more(1,2) have "lo - 1 \<le> m \<and> m \<le> length cs" by simp
    with more(3) show ?thesis by auto
  next
    case stop
    then show ?thesis by simp
  qed
qed

lemma greedy_zero_nonempty: "greedy U a 0 hi s \<noteq> []"
  by (cases s) auto

lemma ends_le_length: "n \<in> set (ends U r p s) \<Longrightarrow> n \<le> length s"
proof (induction r arbitrary: n p s)
  case (Seq r1 r2)
  then show ?case by (fastforce)
qed (auto split: list.splits if_splits dest: greedy_bounds)

lemma ends_min_len: "n \<in> set (ends U r p s) \<Longrightarrow> min_len r \<le> n"
proof (induction r arbitrary: n p s)
  case (Seq r1 r2)
  then show ?case by (fastforce)
next
  case (Alt r1 r2)
  then show ?case by (auto simp: min_le_iff_disj)
qed (auto split: list.splits if_splits dest: greedy_bounds)

lemma match_at_Some: "match_at U r p s = Some n \<Longrightarrow> n \<in> set (ends U r p s)"
  by (auto simp: match_at_def split: list.splits)

lemma match_at_None: "match_at U r p s = None \<longleftrightarrow> ends U r p s = []"
  by (auto simp: match_at_def split: list.splits)

lemma min_len_patterns:
  "k \<in> set pattern_keys \<Longrightarrow> \<exists>r. patterns k = Some r \<and> 1 \<le> min_len r"
  by (cases k) (simp_all add: pattern_defs regex_defs)

lemma group_match_Some:
  "group_match U ks p s = Some (k, n) \<Longrightarrow>
   k \<in> set ks \<and> (\<exists>r. patterns k = Some r \<and> match_at U r p s = Some n)"
  by (induction ks) (auto split: option.splits)

lemma group_match_None:
  "group_match U ks p s = None \<Longrightarrow> k \<in> set ks \<Longrightarrow> patterns k = Some r \<Longrightarrow>
   match_at U r p s = None"
  by (induction ks) (auto split: option.splits)

lemma group_match_bounds:
  assumes "group_match U pattern_keys p s = Some (k, n)"
  shows "k \<in> set pattern_keys \<and> 1 \<le> n \<and> n \<le> length s"
proof -
  from group_match_Some[OF assms] obtain r where
    k: "k \<in> set pattern_keys" and r: "patterns k = Some r" and m: "match_at U r p s = Some n"
    by blast
  from min_len_patterns[OF k] r have "1 \<le> min_len r" by simp
  with ends_min_len[OF match_at_Some[OF m]] ends_le_length[OF match_at_Some[OF m]] k
  show ?thesis by simp
qed

lemma plus_matches:
  "in_atom U a c \<Longrightarrow> match_at U (plus a) p (c # cs) \<noteq> None"
  using greedy_zero_nonempty[of U a None cs]
  by (simp add: match_at_None plus_def)

lemma atom_matches:
  "in_atom U a c \<Longrightarrow> match_at U (Atom a) p (c # cs) \<noteq> None"
  by (simp add: match_at_None)

lemma lettered_group_match:
  assumes "lettered U c"
  shows "group_match U pattern_keys p (c # cs) \<noteq> None"
proof
  assume none: "group_match U pattern_keys p (c # cs) = None"
  from assms consider
      "in_atom U (CSet [upper, lower]) c"
    | "in_atom U gujarati_char_pattern c"
    | "in_atom U (CSet punctuation_set) c"
    unfolding lettered_def by blast
  then show False
  proof cases
    case 1
    have "match_at U (plus (CSet [upper, lower])) p (c # cs) = None"
      by (rule group_match_None[OF none, of English_word]) (simp_all add: pattern_keys_def)
    with plus_matches[OF 1, of p cs] show False by simp
  next
    case 2
    have "match_at U (plus gujarati_char_pattern) p (c # cs) = None"
      by (rule group_match_None[OF none, of Gujarati_word]) (simp_all add: pattern_keys_def)
    with plus_matches[OF 2, of p cs] show False by simp
  next
    case 3
    have "match_at U (Atom (CSet punctuation_set)) p (c # cs) = None"
      by (rule group_match_None[OF none, of Punctuation]) (simp_all add: pattern_keys_def)
    with atom_matches[OF 3, of p cs] show False by simp
  qed
qed

lemma group_match_Nil: "group_match U pattern_keys p [] = None"
proof (cases "group_match U pattern_keys p []")
  case (Some x)
  obtain k n where "x = (k, n)" by (cases x)
  with Some have "group_match U pattern_keys p [] = Some (k, n)" by simp
  from group_match_bounds[OF this] have False by auto
  then show ?thesis ..
qed simp

lemma findall_segments:
  "\<exists>segs. findall U p s = map (\<lambda>(k, t). group_tuple k t) segs \<and>
     (\<forall>(k, t) \<in> set segs. k \<in> set pattern_keys \<and> t \<noteq> []) \<and>
     subseq (concat (map snd segs)) s \<and>
     filter (lettered U) (concat (map snd segs)) = filter (lettered U) s"
proof (induction U p s rule: findall.induct)
  case (1 U p)
  show ?case by (rule exI[of _ "[]"]) (simp add: group_match_Nil)
next
  case (2 U p c cs)
  show ?case
  proof (cases "group_match U pattern_keys p (c # cs)")
    case None
    from "2.IH"(1)[OF None] obtain segs where
      segs: "findall U (Some c) cs = map (\<lambda>(k, t). group_tuple k t) segs"
        "\<forall>(k, t) \<in> set segs. k \<in> set pattern_keys \<and> t \<noteq> []"
        "subseq (concat (map snd segs)) cs"
        "filter (lettered U) (concat (map snd segs)) = filter (lettered U) cs"
      by blast
    from None lettered_group_match[of U c p cs] have nl: "\<not> lettered U c" by blast
    have sub: "subseq (concat (map snd segs)) (c # cs)"
      using subseq_drop_many[OF segs(3), of "[c]"] by simp
    from segs(1,2,4) None nl sub show ?thesis
      by (intro exI[of _ segs]) simp
  next
    case (Some x)
    obtain k n where x: "x = (k, n)" by (cases x)
    from Some x have gm: "group_match U pattern_keys p (c # cs) = Some (k, n)" by simp
    from group_match_bounds[OF gm]
    have k: "k \<in> set pattern_keys" and n: "1 \<le> n" "n \<le> length (c # cs)" by simp_all
    from n have n0: "n \<noteq> 0" by simp
    from "2.IH"(3)[OF Some x[symmetric] n0] obtain segs where
      segs: "findall U (prev_cp p (c # cs) n) (drop n (c # cs)) =
               map (\<lambda>(k, t). group_tuple k t) segs"
        "\<forall>(k, t) \<in> set segs. k \<in> set pattern_keys \<and> t \<noteq> []"
        "subseq (concat (map snd segs)) (drop n (c # cs))"
        "filter (lettered U) (concat (map snd segs)) = filter (lettered U) (drop n (c # cs))"
      by blast
    define t where "t = take n (c # cs)"
    define rest where "rest = drop n (c # cs)"
    have split: "c # cs = t @ rest" by (simp add: t_def rest_def)
    have t: "t \<noteq> []" using n0 by (cases n) (simp_all add: t_def)
    from segs(3) have sub0: "subseq (concat (map snd segs)) rest" by (simp add: rest_def)
    from segs(4) have fil0: "filter (lettered U) (concat (map snd segs)) = filter (lettered U) rest"
      by (simp add: rest_def)
    have sub: "subseq (concat (map snd ((k, t) # segs))) (c # cs)"
      unfolding split using sub0 by (simp add: subseq_append')
    have fil: "filter (lettered U) (concat (map snd ((k, t) # segs))) =
                 filter (lettered U) (c # cs)"
      unfolding split using fil0 by simp
    have fa: "findall U p (c # cs) = map (\<lambda>(k, t). group_tuple k t) ((k, t) # segs)"
      using gm n0 segs(1) by (simp add: t_def)
    have all: "\<forall>(k, t) \<in> set ((k, t) # segs). k \<in> set pattern_keys \<and> t \<noteq> []"
      using k t segs(2) by simp
    from fa all sub fil show ?thesis by blast
  qed
qed

lemma next_group_tuple:
  "k \<in> set pattern_keys \<Longrightarrow> t \<noteq> [] \<Longrightarrow> next_group (group_tuple k t) = Inr t"
  by (cases k) (simp_all add: next_group_def group_tuple_def pattern_keys_def)

lemma greedy_take:
  "n \<in> set (greedy U a lo hi s) \<Longrightarrow> \<forall>c \<in> set (take n s). in_atom U a c"
proof (induction U a lo hi s arbitrary: n rule: greedy.induct)
  case (1 U a lo hi)
  then show ?case by simp
next
  case (2 U a lo hi c cs)
  from "2.prems" consider
      (more) m where "in_atom U a c" "hi \<noteq> Some 0" "n = Suc m"
        "m \<in> set (greedy U a (lo - 1) (map_option (\<lambda>h. h - 1) hi) cs)"
    | (stop) "n = 0"
    by (auto split: if_splits)
  then show ?case
  proof cases
    case more
    from "2.IH"[OF _ more(4)] more(1,2) have "\<forall>c \<in> set (take m cs). in_atom U a c" by simp
    with more(1,3) show ?thesis by simp
  next
    case stop
    then show ?thesis by simp
  qed
qed

lemma whitespace_only_all_space:
  assumes "re_match U whitespace_only t \<noteq> None"
  shows "\<forall>c \<in> set t. is_space c"
proof -
  from assms obtain n where
    n: "n \<in> set (greedy U (CSet [Space]) 1 None t)" and
    d: "drop n t = [] \<or> drop n t = [0x0A]"
    by (auto simp: re_match_def match_at_None whitespace_only_def plus_def prev_cp_def
             split: if_splits)
  from greedy_take[OF n] have "\<forall>c \<in> set (take n t). is_space c" by simp
  moreover from d have "\<forall>c \<in> set (drop n t). is_space c"
    by (auto simp: is_space_def)
  moreover have "set t = set (take n t) \<union> set (drop n t)"
    by (metis append_take_drop_id set_append)
  ultimately show ?thesis by blast
qed

lemma lettered_not_space: "lettered U c \<Longrightarrow> \<not> is_space c"
  by (auto simp: lettered_def is_space_def upper_def lower_def gujarati_char_pattern_def
                 punctuation_set_def lits_def)

lemma token_loop_segments:
  "\<forall>(k, t) \<in> set segs. k \<in> set pattern_keys \<and> t \<noteq> [] \<Longrightarrow>
   token_loop U (map (\<lambda>(k, t). group_tuple k t) segs) acc =
     Inr (acc @ filter (\<lambda>t. re_match U whitespace_only t = None) (map snd segs))"
proof (induction segs arbitrary: acc)
  case Nil
  show ?case by simp
next
  case (Cons a segs)
  obtain k t where a: "a = (k, t)" by (cases a)
  with Cons.prems have kt: "k \<in> set pattern_keys" "t \<noteq> []" by simp_all
  from Cons.prems have rest: "\<forall>(k, t) \<in> set segs. k \<in> set pattern_keys \<and> t \<noteq> []" by simp
  show ?case
    by (simp add: a next_group_tuple[OF kt] Cons.IH[OF rest])
qed

lemma filter_concat_dropped:
  "\<forall>t \<in> set ts. \<not> P t \<longrightarrow> filter Q t = [] \<Longrightarrow>
   filter Q (concat (filter P ts)) = filter Q (concat ts)"
  by (induction ts) auto

lemma subseq_concat_filter: "subseq (concat (filter P ts)) (concat ts)"
proof (induction ts)
  case Nil
  show ?case by simp
next
  case (Cons t ts)
  show ?case
  proof (cases "P t")
    case True
    with Cons show ?thesis by (simp add: subseq_append')
  next
    case False
    with subseq_drop_many[OF Cons, of t] show ?thesis by simp
  qed
qed

lemma word_tokenize_tokens:
  "\<exists>ts. word_tokenize U txt = Inr ts \<and> [] \<notin> set ts \<and> subseq (concat ts) txt \<and>
        filter (lettered U) (concat ts) = filter (lettered U) txt \<and>
        (\<forall>t \<in> set ts. re_match U whitespace_only t = None)"
proof -
  from findall_segments[of U None "txt"] obtain segs where
    segs: "findall U None txt = map (\<lambda>(k, t). group_tuple k t) segs"
      "\<forall>(k, t) \<in> set segs. k \<in> set pattern_keys \<and> t \<noteq> []"
      "subseq (concat (map snd segs)) txt"
      "filter (lettered U) (concat (map snd segs)) = filter (lettered U) txt"
    by blast
  define keep where "keep = (\<lambda>t. re_match U whitespace_only t = None)"
  define ts where "ts = filter keep (map snd segs)"
  have wt: "word_tokenize U txt = Inr ts"
    by (simp add: word_tokenize_def segs(1) token_loop_segments[OF segs(2)] ts_def keep_def)
  have ne: "[] \<notin> set ts" using segs(2) by (auto simp: ts_def)
  have "subseq (concat ts) (concat (map snd segs))"
    unfolding ts_def by (rule subseq_concat_filter)
  from subseq_order.trans[OF this segs(3)] have sub: "subseq (concat ts) txt" .
  have "\<forall>t \<in> set (map snd segs). \<not> keep t \<longrightarrow> filter (lettered U) t = []"
  proof (intro ballI impI)
    fix t assume "\<not> keep t"
    then have "re_match U whitespace_only t \<noteq> None" by (simp add: keep_def)
    from whitespace_only_all_space[OF this] show "filter (lettered U) t = []"
      by (auto simp: filter_empty_conv dest: lettered_not_space)
  qed
  from filter_concat_dropped[OF this] segs(4)
  have fil: "filter (lettered U) (concat ts) = filter (lettered U) txt" by (simp add: ts_def)
  have "\<forall>t \<in> set ts. keep t" by (simp add: ts_def)
  with wt ne sub fil show ?thesis by (auto simp: keep_def)
qed

lemma strip_subset: "set (strip s) \<subseteq> set s"
  by (auto simp: strip_def dest!: set_dropWhileD)

lemma last_dropWhile_nonempty:
  "dropWhile P xs \<noteq> [] \<Longrightarrow> last (dropWhile P xs) = last xs"
  by (metis last_appendR takeWhile_dropWhile_id)

lemma strip_ends:
  assumes "strip s \<noteq> []"
  shows "\<not> is_space (hd (strip s)) \<and> \<not> is_space (last (strip s))"
proof -
  define t where "t = dropWhile is_space s"
  define u where "u = dropWhile is_space (rev t)"
  have st: "strip s = rev u" by (simp add: strip_def t_def u_def)
  with assms have u: "u \<noteq> []" by simp
  then have rt: "rev t \<noteq> []" by (auto simp: u_def)
  then have t: "t \<noteq> []" by simp
  have "\<not> is_space (hd u)" using u unfolding u_def by (rule hd_dropWhile)
  then have l: "\<not> is_space (last (strip s))" using u by (simp add: st last_rev)
  have "last u = last (rev t)" using u unfolding u_def by (rule last_dropWhile_nonempty)
  also have "\<dots> = hd t" using t by (simp add: last_rev)
  finally have "hd (strip s) = hd t" using u by (simp add: st hd_rev)
  moreover have "\<not> is_space (hd t)" using t unfolding t_def by (rule hd_dropWhile)
  ultimately show ?thesis using l by simp
qed

lemma in_terminators: "in_atom U (CSet terminators) c \<longleftrightarrow> is_terminator c"
  by (auto simp: terminators_def lits_def is_terminator_def)

lemma terminator_matches:
  assumes "is_terminator c"
  shows "\<exists>n. match_at U sentence_pattern p (c # cs) = Some (Suc n)"
proof -
  let ?T = "CSet terminators"
  from assms in_terminators[of U c] have c: "in_atom U ?T c" by blast
  obtain m ms where g: "greedy U ?T 0 None cs = m # ms"
    using greedy_zero_nonempty[of U ?T None cs] by (cases "greedy U ?T 0 None cs") auto
  obtain j js where h: "greedy U (CSet [Space]) 0 None (drop (Suc m) (c # cs)) = j # js"
    using greedy_zero_nonempty[of U "CSet [Space]" None "drop (Suc m) (c # cs)"]
    by (cases "greedy U (CSet [Space]) 0 None (drop (Suc m) (c # cs))") auto
  have "ends U sentence_pattern p (c # cs) \<noteq> []"
    using c g h by (simp add: sentence_pattern_def plus_def star_def)
  then have "match_at U sentence_pattern p (c # cs) \<noteq> None" by (simp add: match_at_None)
  then obtain n where n: "match_at U sentence_pattern p (c # cs) = Some n" by blast
  have "min_len sentence_pattern = 1" by (simp add: sentence_pattern_def plus_def star_def)
  with ends_min_len[OF match_at_Some[OF n]] have "1 \<le> n" by simp
  with n show ?thesis by (cases n) auto
qed

lemma split_from_pieces:
  "\<forall>c \<in> set cur. \<not> is_terminator c \<Longrightarrow>
   piece \<in> set (split_from U sentence_pattern cur p s) \<Longrightarrow>
   \<forall>c \<in> set piece. \<not> is_terminator c"
proof (induction s arbitrary: cur p piece rule: length_induct)
  case (1 s)
  show ?case
  proof (cases s)
    case Nil
    with "1.prems" show ?thesis by simp
  next
    case (Cons c cs)
    show ?thesis
    proof (cases "match_at U sentence_pattern p (c # cs)")
      case None
      with terminator_matches[of c U p cs] have nt: "\<not> is_terminator c" by auto
      from "1.prems"(2) None Cons
      have "piece \<in> set (split_from U sentence_pattern (cur @ [c]) (Some c) cs)" by simp
      moreover have "\<forall>x \<in> set (cur @ [c]). \<not> is_terminator x" using "1.prems"(1) nt by simp
      moreover have "length cs < length s" using Cons by simp
      ultimately show ?thesis using "1.IH" by blast
    next
      case (Some n)
      show ?thesis
      proof (cases "n = 0")
        case True
        with Some terminator_matches[of c U p cs] have nt: "\<not> is_terminator c" by auto
        from "1.prems"(2) Some True Cons
        have "piece \<in> set (split_from U sentence_pattern (cur @ [c]) (Some c) cs)" by simp
        moreover have "\<forall>x \<in> set (cur @ [c]). \<not> is_terminator x" using "1.prems"(1) nt by simp
        moreover have "length cs < length s" using Cons by simp
        ultimately show ?thesis using "1.IH" by blast
      next
        case False
        from "1.prems"(2) Some False Cons
        consider "piece = cur"
          | "piece \<in> set (split_from U sentence_pattern [] (prev_cp p (c # cs) n) (drop n (c # cs)))"
          by auto
        then show ?thesis
        proof cases
          case 1
          with "1.prems"(1) show ?thesis by simp
        next
          case 2
          have "length (drop n (c # cs)) < length s" using Cons False by simp
          with 2 "1.IH" show ?thesis by (metis empty_iff list.set(1))
        qed
      qed
    qed
  qed
qed

lemma sentence_tokenize_sentences:
  assumes "s \<in> set (sentence_tokenize U txt)"
  shows "s \<noteq> [] \<and> \<not> is_space (hd s) \<and> \<not> is_space (last s) \<and> (\<forall>c \<in> set s. \<not> is_terminator c)"
proof -
  from assms obtain piece where
    piece: "piece \<in> set (re_split U sentence_pattern (strip txt))" and
    ne: "strip piece \<noteq> []" and s: "s = strip piece"
    by (auto simp: sentence_tokenize_def)
  from piece have "\<forall>c \<in> set piece. \<not> is_terminator c"
    unfolding re_split_def by (rule split_from_pieces[rotated]) simp
  with strip_subset[of piece] have "\<forall>c \<in> set s. \<not> is_terminator c" by (auto simp: s)
  with ne strip_ends[OF ne] show ?thesis by (simp add: s)
qed

lemma word_tokenize_total: "\<exists>ts. word_tokenize U s = Inr ts"
  using word_tokenize_tokens[of U s] by blast

lemma paragraph_loop_sentences:
  "\<exists>d. paragraph_loop U ss r = Inr d \<and> original_text d = original_text r \<and>
        total_characters d = total_characters r \<and>
        map sentence_text (sentences d) = map sentence_text (sentences r) @ ss \<and>
        (\<forall>x \<in> set (sentences d). x \<in> set (sentences r) \<or>
             word_tokenize U (sentence_text x) = Inr (words x))"
proof (induction ss arbitrary: r)
  case Nil
  show ?case by simp
next
  case (Cons s ss)
  obtain ws where ws: "word_tokenize U s = Inr ws" using word_tokenize_total by blast
  define x where "x = \<lparr>sentence_text = s, words = ws,
      classified_words = map (\<lambda>w. (w, classify_token U w)) ws, word_count = length ws\<rparr>"
  define r' where "r' = r\<lparr>sentences := sentences r @ [x],
      total_words := total_words r + length ws\<rparr>"
  from Cons.IH[of r'] obtain d where
    d: "paragraph_loop U ss r' = Inr d" "original_text d = original_text r'"
      "total_characters d = total_characters r'"
      "map sentence_text (sentences d) = map sentence_text (sentences r') @ ss"
      "\<forall>y \<in> set (sentences d). y \<in> set (sentences r') \<or>
             word_tokenize U (sentence_text y) = Inr (words y)"
    by blast
  have step: "paragraph_loop U (s # ss) r = paragraph_loop U ss r'"
    by (simp add: ws r'_def x_def)
  have "\<forall>y \<in> set (sentences d). y \<in> set (sentences r) \<or>
             word_tokenize U (sentence_text y) = Inr (words y)"
  proof
    fix y assume "y \<in> set (sentences d)"
    with d(5) consider "y \<in> set (sentences r)" | "y = x"
      | "word_tokenize U (sentence_text y) = Inr (words y)"
      by (auto simp: r'_def)
    then show "y \<in> set (sentences r) \<or> word_tokenize U (sentence_text y) = Inr (words y)"
      by cases (simp_all add: x_def ws)
  qed
  with d(1-4) step show ?case by (simp add: r'_def x_def)
qed

lemma tokenize_paragraph_total:
  "\<exists>d. tokenize_paragraph U paragraph = Inr d \<and> original_text d = paragraph \<and>
        total_characters d = length paragraph \<and>
        map sentence_text (sentences d) = sentence_tokenize U paragraph \<and>
        (\<forall>x \<in> set (sentences d). word_tokenize U (sentence_text x) = Inr (words x))"
  using paragraph_loop_sentences[of U "sentence_tokenize U paragraph"
      "\<lparr>original_text = paragraph, sentences = [], total_words = 0,
        total_characters = length paragraph\<rparr>"]
  by (auto simp: tokenize_paragraph_def)

lemma token_chars:
  assumes "word_tokenize U s = Inr ws" "w \<in> set ws" "c \<in> set w"
  shows "c \<in> set s"
proof -
  from word_tokenize_tokens[of U s] assms(1) have sub: "subseq (concat ws) s" by auto
  from assms(2,3) have "c \<in> set (concat ws)" by auto
  from list_emb_set[OF sub this] show ?thesis by auto
qed

section \<open>Sentence segmentation\<close>

text \<open>
  C9. Every sentence that \<open>sentence_tokenize\<close> returns is non-empty, has no whitespace
  at its start or end and contains none of the five sentence terminators.
  \<open>tokenize_paragraph\<close> returns a document for every text; its sentences are those of
  \<open>sentence_tokenize\<close>, and no word token of any of them contains a terminator.
\<close>

theorem sentences_without_terminators:
  "(\<forall>s \<in> set (sentence_tokenize U paragraph).
      s \<noteq> [] \<and> \<not> is_space (hd s) \<and> \<not> is_space (last s) \<and>
      (\<forall>c \<in> set s. \<not> is_terminator c)) \<and>
   (\<exists>d. tokenize_paragraph U paragraph = Inr d \<and>
      map sentence_text (sentences d) = sentence_tokenize U paragraph \<and>
      (\<forall>x \<in> set (sentences d). \<forall>w \<in> set (words x). \<forall>c \<in> set w. \<not> is_terminator c))"
proof
  show "\<forall>s \<in> set (sentence_tokenize U paragraph).
      s \<noteq> [] \<and> \<not> is_space (hd s) \<and> \<not> is_space (last s) \<and>
      (\<forall>c \<in> set s. \<not> is_terminator c)"
    using sentence_tokenize_sentences by blast
next
  from tokenize_paragraph_total[of U "paragraph"] obtain d where
    d: "tokenize_paragraph U paragraph = Inr d"
       "map sentence_text (sentences d) = sentence_tokenize U paragraph"
       "\<forall>x \<in> set (sentences d). word_tokenize U (sentence_text x) = Inr (words x)"
    by blast
  have "\<forall>x \<in> set (sentences d). \<forall>w \<in> set (words x). \<forall>c \<in> set w. \<not> is_terminator c"
  proof (intro ballI)
    fix x w c assume x: "x \<in> set (sentences d)" and w: "w \<in> set (words x)" and c: "c \<in> set w"
    from x have "sentence_text x \<in> set (map sentence_text (sentences d))" by simp
    with d(2) have "sentence_text x \<in> set (sentence_tokenize U paragraph)" by simp
    from sentence_tokenize_sentences[OF this]
    have nt: "\<forall>c \<in> set (sentence_text x). \<not> is_terminator c" by simp
    from d(3) x have "word_tokenize U (sentence_text x) = Inr (words x)" by simp
    from token_chars[OF this w c] nt show "\<not> is_terminator c" by simp
  qed
  with d(1,2) show "\<exists>d. tokenize_paragraph U paragraph = Inr d \<and>
      map sentence_text (sentences d) = sentence_tokenize U paragraph \<and>
      (\<forall>x \<in> set (sentences d). \<forall>w \<in> set (words x). \<forall>c \<in> set w. \<not> is_terminator c)"
    by blast
qed

theorem sentences_without_terminators_witness:
  "sentence_tokenize no_ext (ustr ''Pi is 3.14! '') = [ustr ''Pi is 3'', ustr ''14''] \<and>
   list_all (\<lambda>s. s \<noteq> [] \<and> \<not> is_space (hd s) \<and> \<not> is_space (last s) \<and>
                 list_all (\<lambda>c. \<not> is_terminator c) s)
     (sentence_tokenize no_ext (ustr ''Pi is 3.14! '')) \<and>
   (\<exists>d. tokenize_paragraph no_ext (ustr ''Pi is 3.14! '') = Inr d \<and>
      map words (sentences d) = [[ustr ''Pi'', ustr ''is'', ustr ''3''], [ustr ''14'']])"
proof -
  have s: "sentence_tokenize no_ext (ustr ''Pi is 3.14! '') = [ustr ''Pi is 3'', ustr ''14'']"
    by (simp add: eval_defs)
  have w1: "word_tokenize no_ext (ustr ''Pi is 3'') = Inr [ustr ''Pi'', ustr ''is'', ustr ''3'']"
    by (simp add: eval_defs)
  have w2: "word_tokenize no_ext (ustr ''14'') = Inr [ustr ''14'']"
    by (simp add: eval_defs)
  have t: "\<exists>d. tokenize_paragraph no_ext (ustr ''Pi is 3.14! '') = Inr d \<and>
      map words (sentences d) = [[ustr ''Pi'', ustr ''is'', ustr ''3''], [ustr ''14'']]"
    by (simp add: tokenize_paragraph_def s w1 w2)
  from sentences_without_terminators[of no_ext "ustr ''Pi is 3.14! ''"] s t
  show ?thesis by (simp add: list_all_iff)
qed

section \<open>process\_dataset\<close>

lemma nonblank_texts_Cons:
  "nonblank_texts (ex # rest) =
     (if strip (get_text ex) = [] then nonblank_texts rest
      else get_text ex # nonblank_texts rest)"
  by (simp add: nonblank_texts_def)

lemma dataset_loop_result:
  "\<exists>docs. dataset_loop U max_examples i dataset acc = Inr (acc @ docs) \<and>
     list_all2 (\<lambda>t d. tokenize_paragraph U t = Inr d)
       (nonblank_texts (take (nat (max_examples - i)) dataset)) docs"
proof (induction dataset arbitrary: i acc)
  case Nil
  show ?case by (simp add: nonblank_texts_def)
next
  case (Cons ex rest)
  show ?case
  proof (cases "i \<ge> max_examples")
    case True
    then show ?thesis by (simp add: nonblank_texts_def)
  next
    case False
    then have n: "nat (max_examples - i) = Suc (nat (max_examples - (i + 1)))" by simp
    show ?thesis
    proof (cases "strip (get_text ex) = []")
      case True
      from Cons.IH[of "i + 1" acc] obtain docs where
        "dataset_loop U max_examples (i + 1) rest acc = Inr (acc @ docs)"
        "list_all2 (\<lambda>t d. tokenize_paragraph U t = Inr d)
           (nonblank_texts (take (nat (max_examples - (i + 1))) rest)) docs"
        by blast
      with False True show ?thesis
        by (intro exI[of _ docs]) (simp add: n nonblank_texts_Cons)
    next
      case blank: False
      obtain d where d: "tokenize_paragraph U (get_text ex) = Inr d"
        using tokenize_paragraph_total by blast
      from Cons.IH[of "i + 1" "acc @ [d]"] obtain docs where
        "dataset_loop U max_examples (i + 1) rest (acc @ [d]) = Inr ((acc @ [d]) @ docs)"
        "list_all2 (\<lambda>t d. tokenize_paragraph U t = Inr d)
           (nonblank_texts (take (nat (max_examples - (i + 1))) rest)) docs"
        by blast
      with False blank d show ?thesis
        by (intro exI[of _ "d # docs"]) (simp add: n nonblank_texts_Cons)
    qed
  qed
qed

text \<open>
  C10. \<open>process_dataset\<close> looks at the first \<open>max_examples\<close> records only, blank ones
  included: it never fails, and its result is the documents of the non-blank texts
  among those records, in the order of the source. So it returns at most
  \<open>max_examples\<close> documents, and it can return fewer although the source has
  \<open>max_examples\<close> non-blank records: of the three records of \<open>short_dataset\<close> two are
  not blank, and with \<open>max_examples = 2\<close> the result is one document.
\<close>

theorem process_dataset_prefix:
  "(\<exists>docs. process_dataset U dataset max_examples = Inr docs \<and>
      list_all2 (\<lambda>t d. tokenize_paragraph U t = Inr d)
        (nonblank_texts (take (nat max_examples) dataset)) docs \<and>
      length docs \<le> nat max_examples) \<and>
   length (nonblank_texts short_dataset) = 2 \<and>
   (\<exists>d. process_dataset U short_dataset 2 = Inr [d])"
proof (intro conjI)
  from dataset_loop_result[of U max_examples 0 dataset "[]"] obtain docs where
    docs: "process_dataset U dataset max_examples = Inr docs"
      "list_all2 (\<lambda>t d. tokenize_paragraph U t = Inr d)
         (nonblank_texts (take (nat max_examples) dataset)) docs"
    by (auto simp: process_dataset_def)
  from docs(2) have "length docs = length (nonblank_texts (take (nat max_examples) dataset))"
    by (simp add: list_all2_lengthD)
  also have "\<dots> \<le> length (take (nat max_examples) dataset)"
    unfolding nonblank_texts_def
    by (metis length_filter_le length_map)
  also have "\<dots> \<le> nat max_examples" by simp
  finally have "length docs \<le> nat max_examples" .
  with docs show "\<exists>docs. process_dataset U dataset max_examples = Inr docs \<and>
      list_all2 (\<lambda>t d. tokenize_paragraph U t = Inr d)
        (nonblank_texts (take (nat max_examples) dataset)) docs \<and>
      length docs \<le> nat max_examples"
    by blast
next
  show "length (nonblank_texts short_dataset) = 2"
    by (simp add: nonblank_texts_def short_dataset_def get_text_def strip_def ustr_def
                  is_space_def)
next
  have "dataset_loop U 2 0 short_dataset [] =
          (case tokenize_paragraph U (ustr ''a'') of Inl e \<Rightarrow> Inl e | Inr d \<Rightarrow> Inr [d])"
    by (simp add: short_dataset_def get_text_def strip_def ustr_def is_space_def
             split: sum.splits)
  moreover obtain d where "tokenize_paragraph U (ustr ''a'') = Inr d"
    using tokenize_paragraph_total by blast
  ultimately show "\<exists>d. process_dataset U short_dataset 2 = Inr [d]"
    by (simp add: process_dataset_def)
qed

section \<open>compute\_corpus\_statistics\<close>

lemma sentence_loop_counts:
  "sentence_loop ss c =
     c\<lparr>n_sentences := n_sentences c + length ss,
       n_words := n_words c + length (concat (map words ss)),
       all_words := all_words c @ concat (map words ss)\<rparr>"
  by (induction ss arbitrary: c) simp_all

lemma document_loop_counts:
  "document_loop ds c =
     c\<lparr>n_sentences := n_sentences c + length (corpus_sentences ds),
       n_words := n_words c + length (corpus_words ds),
       n_characters := n_characters c + sum_list (map total_characters ds),
       all_words := all_words c @ corpus_words ds\<rparr>"
  by (induction ds arbitrary: c)
     (simp_all add: corpus_sentences_def corpus_words_def sentence_loop_counts)

lemma corpus_counters_eq:
  "corpus_counters ds =
     \<lparr>n_sentences = length (corpus_sentences ds), n_words = length (corpus_words ds),
      n_characters = sum_list (map total_characters ds), all_words = corpus_words ds\<rparr>"
  by (simp add: corpus_counters_def document_loop_counts)

lemma guarded_div_quotient: "guarded_div a b = Inr (quotient a b)"
  by (simp add: guarded_div_def quotient_def true_div_def)

lemma ratios_quotients:
  "ratios (corpus_counters ds) =
     Inr (quotient (length (corpus_words ds)) (length (corpus_sentences ds)),
          quotient (sum_list (map length (corpus_words ds))) (length (corpus_words ds)),
          quotient (card (set (corpus_words ds))) (length (corpus_words ds)))"
  by (simp add: ratios_def corpus_counters_eq guarded_div_quotient)

lemma statistics_eq:
  "compute_corpus_statistics ds =
     Inr \<lparr>total_number_of_sentences = length (corpus_sentences ds),
          total_number_of_words = length (corpus_words ds),
          total_number_of_characters = sum_list (map total_characters ds),
          average_sentence_length =
            py_round (quotient (length (corpus_words ds)) (length (corpus_sentences ds))) 2,
          average_word_length =
            py_round (quotient (sum_list (map length (corpus_words ds)))
                               (length (corpus_words ds))) 2,
          type_token_ratio =
            py_round (quotient (card (set (corpus_words ds))) (length (corpus_words ds))) 4,
          total_unique_words = card (set (corpus_words ds))\<rparr>"
  by (simp add: compute_corpus_statistics_def ratios_quotients Let_def)
     (simp add: corpus_counters_eq)

subsection \<open>Rounding\<close>

lemma round_half_even_bound:
  assumes "0 < b"
  shows "\<bar>rat_of_nat (round_half_even a b) - rat_of_nat a / rat_of_nat b\<bar> \<le> 1 / 2"
proof -
  define q where "q = a div b"
  define r where "r = a mod b"
  have a: "a = q * b + r" by (simp add: q_def r_def)
  have r: "r < b" using assms by (simp add: r_def)
  have b: "rat_of_nat b > 0" using assms by simp
  have quot: "rat_of_nat a / rat_of_nat b = rat_of_nat q + rat_of_nat r / rat_of_nat b"
    using b by (simp add: a field_simps)
  have rb: "0 \<le> rat_of_nat r / rat_of_nat b" "rat_of_nat r / rat_of_nat b < 1"
    using b r by simp_all
  consider (lt) "2 * r < b" | (gt) "b < 2 * r" | (eq) "2 * r = b" by linarith
  then show ?thesis
  proof cases
    case lt
    then have "rat_of_nat r / rat_of_nat b \<le> 1 / 2"
      using b by (simp add: field_simps)
    moreover have "round_half_even a b = q" using lt by (simp add: round_half_even_def q_def r_def Let_def)
    ultimately show ?thesis using rb by (simp add: quot)
  next
    case gt
    then have "rat_of_nat b \<le> 2 * rat_of_nat r"
      by (metis less_imp_le of_nat_le_iff of_nat_mult of_nat_numeral)
    then have "1 / 2 \<le> rat_of_nat r / rat_of_nat b" using b by (simp add: field_simps)
    moreover have "round_half_even a b = q + 1"
      using gt by (simp add: round_half_even_def q_def r_def Let_def)
    ultimately show ?thesis using rb by (simp add: quot)
  next
    case eq
    then have "2 * rat_of_nat r = rat_of_nat b"
      by (metis of_nat_mult of_nat_numeral)
    then have h: "rat_of_nat r / rat_of_nat b = 1 / 2" using b by (simp add: field_simps)
    have "round_half_even a b = q \<or> round_half_even a b = q + 1"
      using eq by (simp add: round_half_even_def q_def r_def Let_def)
    then show ?thesis by (auto simp: quot h)
  qed
qed

lemma scaled_value:
  assumes "scaled a b e = (a', b')" "0 < b"
  shows "0 < b' \<and> rat_of_nat a' / rat_of_nat b' = rat_of_nat a / (rat_of_nat b * 2 powi e)"
proof (cases "0 \<le> e")
  case True
  with assms(1) have "a' = a" "b' = b * 2 ^ nat e" by (simp_all add: scaled_def)
  moreover have "(2::rat) powi e = 2 ^ nat e" using True by (simp add: power_int_def)
  ultimately show ?thesis using assms(2) by simp
next
  case False
  with assms(1) have "a' = a * 2 ^ nat (- e)" "b' = b" by (simp_all add: scaled_def)
  moreover have "(2::rat) powi e = inverse (2 ^ nat (- e))"
    using False by (simp add: power_int_def power_one_over inverse_eq_divide)
  ultimately show ?thesis using assms(2) by (simp add: field_simps)
qed

lemma float_round_decimal:
  "\<exists>k. float_round f ndigits = nearest_float k (10 ^ ndigits) \<and>
       \<bar>rat_of_nat k / 10 ^ ndigits - float_val f\<bar> \<le> 1 / (2 * 10 ^ ndigits)"
proof -
  obtain m e where f: "f = Float m e" by (cases f)
  obtain a b where ab: "scaled m 1 (- e) = (a, b)" by (cases "scaled m 1 (- e)")
  from scaled_value[OF ab] have b: "0 < b" and
    v: "rat_of_nat a / rat_of_nat b = rat_of_nat m / (2 powi (- e))" by simp_all
  have val: "float_val f = rat_of_nat a / rat_of_nat b"
    by (simp add: f float_val_def v power_int_minus field_simps)
  define k where "k = round_half_even (a * 10 ^ ndigits) b"
  have fr: "float_round f ndigits = nearest_float k (10 ^ ndigits)"
    by (simp only: float_round_def f pyfloat.case ab prod.case Let_def k_def)
  from round_half_even_bound[OF b, of "a * 10 ^ ndigits"]
  have "\<bar>rat_of_nat k - float_val f * 10 ^ ndigits\<bar> \<le> 1 / 2"
    by (simp add: k_def val)
  then have "\<bar>rat_of_nat k - float_val f * 10 ^ ndigits\<bar> / 10 ^ ndigits \<le> (1 / 2) / 10 ^ ndigits"
    by (rule divide_right_mono) simp
  moreover have "\<bar>rat_of_nat k - float_val f * 10 ^ ndigits\<bar> / 10 ^ ndigits =
      \<bar>rat_of_nat k / 10 ^ ndigits - float_val f\<bar>"
  proof -
    have "\<bar>rat_of_nat k - float_val f * 10 ^ ndigits\<bar> / 10 ^ ndigits =
          \<bar>(rat_of_nat k - float_val f * 10 ^ ndigits) / 10 ^ ndigits\<bar>"
      by (simp add: abs_divide)
    also have "(rat_of_nat k - float_val f * 10 ^ ndigits) / 10 ^ ndigits =
          rat_of_nat k / 10 ^ ndigits - float_val f"
      by (simp add: field_simps)
    finally show ?thesis .
  qed
  ultimately have "\<bar>rat_of_nat k / 10 ^ ndigits - float_val f\<bar> \<le> 1 / (2 * 10 ^ ndigits)"
    by simp
  with fr show ?thesis by blast
qed

lemma bit_length_pos: "0 < n \<Longrightarrow> 0 < bit_length n"
  by (subst bit_length.simps) simp

lemma bit_length_bounds:
  "0 < n \<Longrightarrow> 2 ^ (bit_length n - 1) \<le> n \<and> n < 2 ^ bit_length n"
proof (induction n rule: bit_length.induct)
  case (1 n)
  have bl: "bit_length n = Suc (bit_length (n div 2))"
    using "1.prems" by (subst bit_length.simps) simp
  show ?case
  proof (cases "n div 2 = 0")
    case True
    with "1.prems" have "n = 1" by (simp add: div_eq_0_iff) 
    moreover have "bit_length 0 = 0" by (subst bit_length.simps) simp
    ultimately show ?thesis using bl True by simp
  next
    case False
    then have h: "0 < n div 2" by simp
    from "1.IH"[OF _ h] "1.prems"
    have ih: "2 ^ (bit_length (n div 2) - 1) \<le> n div 2" "n div 2 < 2 ^ bit_length (n div 2)"
      by simp_all
    from bit_length_pos[OF h] obtain j where j: "bit_length (n div 2) = Suc j"
      by (cases "bit_length (n div 2)") simp_all
    from ih(1) have "2 * 2 ^ j \<le> 2 * (n div 2)" by (simp add: j)
    then have lo: "2 ^ bit_length (n div 2) \<le> n" by (simp add: j)
    from ih(2) have "2 * (n div 2) + 1 < 2 * 2 ^ bit_length (n div 2)" by simp
    then have hi: "n < 2 ^ Suc (bit_length (n div 2))" by simp
    from lo hi show ?thesis by (simp add: bl)
  qed
qed

lemma two_powi_pos: "0 < (2::rat) powi e"
  by (simp add: power_int_def)

lemma nearest_float_value:
  assumes a: "0 < a" and b: "0 < b"
  shows "\<exists>m e. float_val (nearest_float a b) = rat_of_nat m * 2 powi e \<and>
           \<bar>rat_of_nat m - (rat_of_nat a / rat_of_nat b) / 2 powi e\<bar> \<le> 1 / 2 \<and>
           2 ^ 52 * 2 powi e \<le> rat_of_nat a / rat_of_nat b"
proof -
  define x where "x = rat_of_nat a / rat_of_nat b"
  define k where "k = int (bit_length a) - int (bit_length b)"
  obtain a1 b1 where s1: "scaled a b k = (a1, b1)" by (cases "scaled a b k")
  define fl where "fl = (if b1 \<le> a1 then k else k - 1)"
  define e where "e = fl - 52"
  obtain a2 b2 where s2: "scaled a b e = (a2, b2)" by (cases "scaled a b e")
  define m where "m = round_half_even a2 b2"
  have nf: "nearest_float a b = (if m = 2 ^ 53 then Float (2 ^ 52) (e + 1) else Float m e)"
    using a unfolding nearest_float_def Let_def k_def[symmetric] s1 prod.case
      fl_def[symmetric] e_def[symmetric] s2 m_def[symmetric]
    by simp
  have val: "float_val (nearest_float a b) = rat_of_nat m * 2 powi e"
  proof (cases "m = 2 ^ 53")
    case True
    have "(2::rat) powi (e + 1) = 2 powi e * 2" by (simp add: power_int_add)
    with True show ?thesis by (simp add: nf float_val_def)
  next
    case False
    then show ?thesis by (simp add: nf float_val_def)
  qed
  from scaled_value[OF s2 b] have b2: "0 < b2" and
    v2: "rat_of_nat a2 / rat_of_nat b2 = x / 2 powi e" by (simp_all add: x_def)
  from round_half_even_bound[OF b2, of a2]
  have err: "\<bar>rat_of_nat m - x / 2 powi e\<bar> \<le> 1 / 2" by (simp add: m_def v2)
  have lower: "2 powi fl \<le> x"
  proof (cases "b1 \<le> a1")
    case True
    from scaled_value[OF s1 b] have b1: "0 < b1" and
      v1: "rat_of_nat a1 / rat_of_nat b1 = x / 2 powi k" by (simp_all add: x_def)
    from True b1 have "1 \<le> rat_of_nat a1 / rat_of_nat b1" by simp
    with v1 have "1 \<le> x / 2 powi k" by simp
    with two_powi_pos[of k] have "2 powi k \<le> x" by (simp add: field_simps)
    with True show ?thesis by (simp add: fl_def)
  next
    case False
    from bit_length_bounds[OF a] have la: "2 ^ (bit_length a - 1) \<le> a" by simp
    from bit_length_bounds[OF b] have lb: "b < 2 ^ bit_length b" by simp
    from bit_length_pos[OF a] have la1: "k - 1 = int (bit_length a - 1) - int (bit_length b)"
      by (simp add: k_def)
    have "(2::rat) powi (k - 1) = 2 powi (int (bit_length a - 1) - int (bit_length b))"
      by (simp only: la1)
    also have "\<dots> = 2 ^ (bit_length a - 1) / 2 ^ bit_length b"
      by (simp add: power_int_diff)
    also have "\<dots> \<le> rat_of_nat a / 2 ^ bit_length b"
    proof (rule divide_right_mono)
      from la have "rat_of_nat (2 ^ (bit_length a - 1)) \<le> rat_of_nat a"
        by (simp only: of_nat_le_iff)
      then show "2 ^ (bit_length a - 1) \<le> rat_of_nat a" by simp
    qed simp
    also have "\<dots> \<le> rat_of_nat a / rat_of_nat b"
    proof (rule divide_left_mono)
      from lb have "rat_of_nat b < rat_of_nat (2 ^ bit_length b)" by (simp only: of_nat_less_iff)
      then show "rat_of_nat b \<le> 2 ^ bit_length b" by simp
    qed (use b in simp_all)
    finally show ?thesis using False by (simp add: fl_def x_def)
  qed
  have "(2::rat) ^ 52 * 2 powi e = 2 powi 52 * 2 powi e" by simp
  also have "\<dots> = 2 powi (52 + e)" by (simp add: power_int_add)
  also have "\<dots> = 2 powi fl" by (simp add: e_def)
  finally have "2 ^ 52 * 2 powi e \<le> x" using lower by simp
  with val err show ?thesis unfolding x_def by blast
qed

lemma nearest_float_error:
  assumes b: "0 < b"
  shows "\<bar>float_val (nearest_float a b) - rat_of_nat a / rat_of_nat b\<bar>
           \<le> (rat_of_nat a / rat_of_nat b) / 2 ^ 53"
proof (cases "a = 0")
  case True
  then show ?thesis by (simp add: nearest_float_def float_val_def)
next
  case False
  define x where "x = rat_of_nat a / rat_of_nat b"
  from False have a: "0 < a" by simp
  from nearest_float_value[OF a b] obtain m e where
    val: "float_val (nearest_float a b) = rat_of_nat m * 2 powi e" and
    err: "\<bar>rat_of_nat m - x / 2 powi e\<bar> \<le> 1 / 2" and
    low: "2 ^ 52 * 2 powi e \<le> x"
    unfolding x_def by blast
  have p: "0 < (2::rat) powi e" by (rule two_powi_pos)
  have "float_val (nearest_float a b) - x = (rat_of_nat m - x / 2 powi e) * 2 powi e"
    using p by (simp add: val field_simps)
  then have "\<bar>float_val (nearest_float a b) - x\<bar> = \<bar>rat_of_nat m - x / 2 powi e\<bar> * 2 powi e"
    using p by (simp add: abs_mult)
  also have "\<dots> \<le> (1 / 2) * 2 powi e"
    using err p by (simp add: mult_right_mono)
  also have "\<dots> \<le> x / 2 ^ 53"
    using low by (simp add: field_simps)
  finally show ?thesis unfolding x_def .
qed

text \<open>
  C8, as the specification states it: the returned averages are the unrounded ratios.
  For the one document of the text \<open>a b cc\<close> the average word length is 4 / 3, and
  the returned entry is the float \<open>1.33\<close>, not the float nearest to 4 / 3.
\<close>

theorem returned_average_is_rounded:
  "map_sum id average_word_length (compute_corpus_statistics [small_document]) =
     Inr (PFloat (Float 5989787504402760 (- 52))) \<and>
   quotient (sum_list (map length (corpus_words [small_document])))
            (length (corpus_words [small_document])) =
     PFloat (Float 6004799503160661 (- 52)) \<and>
   float_val (Float 5989787504402760 (- 52)) \<noteq> 4 / 3"
  by (simp add: statistics_eq corpus_words_def corpus_sentences_def small_document_def
                ustr_def float_defs bit_length.simps Let_def float_val_def power_int_minus)

text \<open>
  C8, amended. The returned averages are the ratios rounded by the function itself:
  sentence length and word length with \<open>round(x, 2)\<close>, the type-token ratio with
  \<open>round(x, 4)\<close>. Rounding leaves the integer \<open>0\<close> of the zero cases as it is and
  replaces a float by the float nearest to a decimal number of that many places, at
  most half a unit of the last place away. The unrounded ratios are not returned.
\<close>

theorem returned_averages_rounded:
  "(\<exists>st. compute_corpus_statistics ds = Inr st \<and>
      average_sentence_length st =
        py_round (quotient (length (corpus_words ds)) (length (corpus_sentences ds))) 2 \<and>
      average_word_length st =
        py_round (quotient (sum_list (map length (corpus_words ds)))
                           (length (corpus_words ds))) 2 \<and>
      type_token_ratio st =
        py_round (quotient (card (set (corpus_words ds))) (length (corpus_words ds))) 4) \<and>
   py_round (PInt i) ndigits = PInt i \<and>
   (\<exists>k. py_round (PFloat f) ndigits = PFloat (nearest_float k (10 ^ ndigits)) \<and>
        \<bar>rat_of_nat k / 10 ^ ndigits - float_val f\<bar> \<le> 1 / (2 * 10 ^ ndigits))"
  using float_round_decimal[of f ndigits] by (simp add: statistics_eq)

section \<open>The date alternative of the token pattern\<close>

lemma decimal_is_word: "is_decimal U c \<Longrightarrow> is_word U c"
  by (auto simp: is_decimal_def is_word_def is_alnum_def gujarati_alnum_def split: if_splits)

lemma greedy_unbounded_mem:
  "lo \<le> n \<Longrightarrow> n \<le> length s \<Longrightarrow> \<forall>c \<in> set (take n s). in_atom U a c \<Longrightarrow>
   n \<in> set (greedy U a lo None s)"
proof (induction s arbitrary: n lo)
  case Nil
  then show ?case by simp
next
  case (Cons c cs)
  show ?case
  proof (cases n)
    case 0
    with Cons.prems show ?thesis by simp
  next
    case (Suc m)
    with Cons.prems have "lo - 1 \<le> m" "m \<le> length cs" "\<forall>c \<in> set (take m cs). in_atom U a c"
      "in_atom U a c" by auto
    with Cons.IH[of "lo - 1" m] Suc show ?thesis by simp
  qed
qed

lemma ends_Seq_nonempty:
  "ends U (Seq r1 r2) p s \<noteq> [] \<longleftrightarrow>
     (\<exists>n \<in> set (ends U r1 p s). ends U r2 (prev_cp p s n) (drop n s) \<noteq> [])"
  by auto

lemma ends_WordB_nonempty:
  "ends U WordB p s \<noteq> [] \<longleftrightarrow> word_before U p \<noteq> word_here U s"
  by simp

lemma ends_WordB_mem: "n \<in> set (ends U WordB p s) \<Longrightarrow> n = 0"
  by (simp split: if_splits)

lemma prev_cp_0: "prev_cp p s 0 = p"
  by (simp add: prev_cp_def)

lemma digits_then_separator_integer:
  assumes wb: "word_before U p \<noteq> word_here U s"
    and n: "n \<in> set (greedy U (CSet [Digit]) lo hi s)" "1 \<le> lo"
    and sep: "ends U (Atom (CSet (lits ''/-''))) q (drop n s) \<noteq> []"
  shows "ends U integer_re p s \<noteq> []"
proof -
  from greedy_bounds[OF n(1)] n(2) have n1: "1 \<le> n" "n \<le> length s" by simp_all
  from greedy_take[OF n(1)] have dig: "\<forall>c \<in> set (take n s). in_atom U (CSet [Digit]) c" .
  from greedy_unbounded_mem[OF n1 dig] have mem: "n \<in> set (greedy U (CSet [Digit]) 1 None s)" .
  from sep obtain c rest where d: "drop n s = c # rest" and c: "c = 0x2F \<or> c = 0x2D"
    by (auto simp: lits_def split: list.splits if_splits)
  from c have nw: "\<not> word_here U (drop n s)"
    by (auto simp: d word_here_def is_word_def is_alnum_def)
  from n1 obtain x xs where r: "rev (take n s) = x # xs"
    by (cases "rev (take n s)") auto
  then have "x \<in> set (take n s)" by (metis list.set_intros(1) set_rev)
  with dig have "is_decimal U x" by simp
  then have "is_word U x" by (rule decimal_is_word)
  then have w: "word_before U (prev_cp p s n)" by (simp add: prev_cp_def r word_before_def)
  from w nw have b: "ends U WordB (prev_cp p s n) (drop n s) \<noteq> []"
    by (simp only: ends_WordB_nonempty) simp
  have g: "ends U (plus (CSet [Digit])) p s = greedy U (CSet [Digit]) 1 None s"
    by (simp add: plus_def)
  have inner: "ends U (Seq (plus (CSet [Digit])) WordB) p s \<noteq> []"
    unfolding ends_Seq_nonempty g using mem b by blast
  have z: "0 \<in> set (ends U WordB p s)" using wb by simp
  have "ends U (Seq WordB (Seq (plus (CSet [Digit])) WordB)) p s \<noteq> []"
    unfolding ends_Seq_nonempty[of U WordB]
    using z inner by (intro bexI[of _ 0]) (simp_all only: prev_cp_0 drop_0 simp_thms)
  then show ?thesis by (simp only: integer_re_def cat.simps simp_thms)
qed

lemma date_branch_integer:
  assumes "ends U (Seq WordB (Seq (Greedy (CSet [Digit]) lo hi)
                     (Seq (Atom (CSet (lits ''/-''))) r))) p s \<noteq> []" "1 \<le> lo"
  shows "ends U integer_re p s \<noteq> []"
proof -
  from assms(1) obtain n0 where n0: "n0 \<in> set (ends U WordB p s)" and
    t0: "ends U (Seq (Greedy (CSet [Digit]) lo hi) (Seq (Atom (CSet (lits ''/-''))) r))
           (prev_cp p s n0) (drop n0 s) \<noteq> []"
    unfolding ends_Seq_nonempty[of U WordB] by blast
  from ends_WordB_mem[OF n0] have z: "n0 = 0" .
  from n0 have wb: "word_before U p \<noteq> word_here U s" by (simp split: if_splits)
  from t0 have "ends U (Seq (Greedy (CSet [Digit]) lo hi) (Seq (Atom (CSet (lits ''/-''))) r)) p s \<noteq> []"
    by (simp only: z prev_cp_0 drop_0 simp_thms)
  then obtain n where n: "n \<in> set (ends U (Greedy (CSet [Digit]) lo hi) p s)" and
    t1: "ends U (Seq (Atom (CSet (lits ''/-''))) r) (prev_cp p s n) (drop n s) \<noteq> []"
    unfolding ends_Seq_nonempty[of U "Greedy (CSet [Digit]) lo hi"] by blast
  from t1 obtain k where "k \<in> set (ends U (Atom (CSet (lits ''/-''))) (prev_cp p s n) (drop n s))"
    unfolding ends_Seq_nonempty[of U "Atom (CSet (lits ''/-''))"] by blast
  then have sep: "ends U (Atom (CSet (lits ''/-''))) (prev_cp p s n) (drop n s) \<noteq> []"
    by (auto simp del: ends.simps)
  from n have "n \<in> set (greedy U (CSet [Digit]) lo hi s)" by simp
  from digits_then_separator_integer[OF wb this assms(2) sep] show ?thesis .
qed

lemma date_implies_integer:
  assumes "ends U date_re p s \<noteq> []"
  shows "ends U integer_re p s \<noteq> []"
proof -
  from assms have "ends U (Alt
       (cat [WordB, Greedy (CSet [Digit]) 1 (Some 2), Atom (CSet (lits ''/-'')),
               Greedy (CSet [Digit]) 1 (Some 2), Atom (CSet (lits ''/-'')),
               Greedy (CSet [Digit]) 2 (Some 4), WordB])
       (cat [WordB, Greedy (CSet [Digit]) 4 (Some 4), Atom (CSet (lits ''/-'')),
               Greedy (CSet [Digit]) 1 (Some 2), Atom (CSet (lits ''/-'')),
               Greedy (CSet [Digit]) 1 (Some 2), WordB])) p s \<noteq> []"
    by (simp only: date_re_def simp_thms)
  then consider
      "ends U (cat [WordB, Greedy (CSet [Digit]) 1 (Some 2), Atom (CSet (lits ''/-'')),
               Greedy (CSet [Digit]) 1 (Some 2), Atom (CSet (lits ''/-'')),
               Greedy (CSet [Digit]) 2 (Some 4), WordB]) p s \<noteq> []"
    | "ends U (cat [WordB, Greedy (CSet [Digit]) 4 (Some 4), Atom (CSet (lits ''/-'')),
               Greedy (CSet [Digit]) 1 (Some 2), Atom (CSet (lits ''/-'')),
               Greedy (CSet [Digit]) 1 (Some 2), WordB]) p s \<noteq> []"
    by (simp only: ends.simps(7) append_is_Nil_conv) blast
  then show ?thesis
  proof cases
    case 1
    then show ?thesis by (simp only: cat.simps) (rule date_branch_integer, assumption, simp)
  next
    case 2
    then show ?thesis by (simp only: cat.simps) (rule date_branch_integer, assumption, simp)
  qed
qed

lemma date_never_tokenized: "group_match U pattern_keys p s \<noteq> Some (Date, n)"
proof
  assume "group_match U pattern_keys p s = Some (Date, n)"
  then have "match_at U integer_re p s = None" "match_at U date_re p s = Some n"
    by (auto simp: pattern_keys_def split: option.splits)
  then have "ends U integer_re p s = []" "ends U date_re p s \<noteq> []"
    by (auto simp: match_at_def split: list.splits)
  with date_implies_integer show False by blast
qed

section \<open>The token pattern and its groups\<close>

lemma match_at_Alt:
  "match_at U (Alt r1 r2) p s =
     (case match_at U r1 p s of Some n \<Rightarrow> Some n | None \<Rightarrow> match_at U r2 p s)"
  by (auto simp: match_at_def split: list.splits)

lemma group_match_alternation:
  "ks \<noteq> [] \<Longrightarrow> \<forall>k \<in> set ks. patterns k \<noteq> None \<Longrightarrow>
   match_at U (alternation (map (\<lambda>k. the (patterns k)) ks)) p s =
     map_option snd (group_match U ks p s)"
proof (induction ks)
  case Nil
  then show ?case by simp
next
  case (Cons k ks)
  from Cons.prems obtain r where r: "patterns k = Some r" by auto
  show ?case
  proof (cases ks)
    case Nil
    then show ?thesis by (simp add: r split: option.splits)
  next
    case (Cons k' ks')
    with Cons.IH Cons.prems
    have ih: "match_at U (alternation (map (\<lambda>k. the (patterns k)) ks)) p s =
                map_option snd (group_match U ks p s)" by simp
    have "alternation (map (\<lambda>k. the (patterns k)) (k # ks)) =
            Alt r (alternation (map (\<lambda>k. the (patterns k)) ks))"
      by (simp add: Cons r)
    then show ?thesis
      by (simp only: match_at_Alt ih) (simp add: r split: option.splits)
  qed
qed

lemma token_pattern_groups:
  "match_at U token_pattern p s = map_option snd (group_match U pattern_keys p s)"
  unfolding token_pattern_def
  by (rule group_match_alternation) (simp_all add: pattern_keys_def)

text \<open>
  No pattern of the program matches the empty string, so the branches of \<open>findall\<close>
  and \<open>split_from\<close> for an empty match are never taken.
\<close>

lemma token_pattern_never_empty: "group_match U pattern_keys p s \<noteq> Some (k, 0)"
  using group_match_bounds[of U p s k 0] by auto

lemma sentence_pattern_never_empty: "match_at U sentence_pattern p s \<noteq> Some 0"
proof
  assume "match_at U sentence_pattern p s = Some 0"
  from ends_min_len[OF match_at_Some[OF this]] show False
    by (simp add: sentence_pattern_def plus_def star_def)
qed

section \<open>The returned statistics\<close>

text \<open>The document \<open>repeated_document\<close> is what \<open>tokenize_paragraph\<close> returns for \<open>a a b\<close>.\<close>

lemma repeated_document_tokenized:
  "tokenize_paragraph no_ext (ustr ''a a b'') = Inr repeated_document"
  by (simp add: tokenize_paragraph_def repeated_document_def eval_defs)

text \<open>
  C3, as the specification states it: the returned \<open>type_token_ratio\<close> is
  distinct tokens / total words. For the one document of the text \<open>a a b\<close> that ratio
  is 2 / 3, and the returned entry is the float \<open>0.6667\<close>, which is neither the float
  quotient nor the exact quotient.
\<close>

theorem returned_ratio_is_rounded:
  "map_sum id type_token_ratio (compute_corpus_statistics [repeated_document]) =
     Inr (PFloat (Float 6005099743135819 (- 53))) \<and>
   quotient (card (set (corpus_words [repeated_document])))
            (length (corpus_words [repeated_document])) =
     PFloat (Float 6004799503160661 (- 53)) \<and>
   float_val (Float 6005099743135819 (- 53)) \<noteq> 2 / 3"
  by (simp add: statistics_eq corpus_words_def corpus_sentences_def repeated_document_def
                ustr_def float_defs bit_length.simps Let_def float_val_def power_int_minus
                List.card_set)

text \<open>
  C3, amended. \<open>compute_corpus_statistics\<close> returns statistics for every collection of
  documents: no division raises. Each returned entry is determined: the three counts,
  the number of distinct tokens, and the three averages, which are
  total words / total sentences and total token characters / total words, each
  rounded with \<open>round(x, 2)\<close>, and distinct tokens / total words rounded with
  \<open>round(x, 4)\<close>. A quotient is the integer \<open>0\<close> when its divisor is \<open>0\<close>, and the
  returned entry is then the integer \<open>0\<close>; otherwise the quotient is the float
  quotient, the exact quotient up to the relative error \<open>2^-53\<close> of binary64.
\<close>

theorem statistics_never_fail:
  "(\<exists>st. compute_corpus_statistics ds = Inr st \<and>
      st = \<lparr>total_number_of_sentences = length (corpus_sentences ds),
            total_number_of_words = length (corpus_words ds),
            total_number_of_characters = sum_list (map total_characters ds),
            average_sentence_length =
              py_round (quotient (length (corpus_words ds)) (length (corpus_sentences ds))) 2,
            average_word_length =
              py_round (quotient (sum_list (map length (corpus_words ds)))
                                 (length (corpus_words ds))) 2,
            type_token_ratio =
              py_round (quotient (card (set (corpus_words ds))) (length (corpus_words ds))) 4,
            total_unique_words = card (set (corpus_words ds))\<rparr> \<and>
      (corpus_sentences ds = [] \<longrightarrow> average_sentence_length st = PInt 0) \<and>
      (corpus_words ds = [] \<longrightarrow>
         average_word_length st = PInt 0 \<and> type_token_ratio st = PInt 0)) \<and>
   quotient a 0 = PInt 0 \<and>
   (0 < b \<longrightarrow>
      (\<exists>f. quotient a b = PFloat f \<and>
           \<bar>float_val f - rat_of_nat a / rat_of_nat b\<bar> \<le> (rat_of_nat a / rat_of_nat b) / 2 ^ 53))"
proof (intro conjI impI)
  show "\<exists>st. compute_corpus_statistics ds = Inr st \<and>
      st = \<lparr>total_number_of_sentences = length (corpus_sentences ds),
            total_number_of_words = length (corpus_words ds),
            total_number_of_characters = sum_list (map total_characters ds),
            average_sentence_length =
              py_round (quotient (length (corpus_words ds)) (length (corpus_sentences ds))) 2,
            average_word_length =
              py_round (quotient (sum_list (map length (corpus_words ds)))
                                 (length (corpus_words ds))) 2,
            type_token_ratio =
              py_round (quotient (card (set (corpus_words ds))) (length (corpus_words ds))) 4,
            total_unique_words = card (set (corpus_words ds))\<rparr> \<and>
      (corpus_sentences ds = [] \<longrightarrow> average_sentence_length st = PInt 0) \<and>
      (corpus_words ds = [] \<longrightarrow>
         average_word_length st = PInt 0 \<and> type_token_ratio st = PInt 0)"
    by (simp add: statistics_eq) (simp add: quotient_def)
  show "quotient a 0 = PInt 0" by (simp add: quotient_def)
next
  assume b: "0 < b"
  from nearest_float_error[OF b, of a] b
  show "\<exists>f. quotient a b = PFloat f \<and>
           \<bar>float_val f - rat_of_nat a / rat_of_nat b\<bar> \<le> (rat_of_nat a / rat_of_nat b) / 2 ^ 53"
    by (simp add: quotient_def)
qed

theorem statistics_never_fail_witness:
  "corpus_sentences [] = [] \<and> corpus_words [] = [] \<and>
   compute_corpus_statistics [] =
     Inr \<lparr>total_number_of_sentences = 0, total_number_of_words = 0,
          total_number_of_characters = 0, average_sentence_length = PInt 0,
          average_word_length = PInt 0, type_token_ratio = PInt 0,
          total_unique_words = 0\<rparr> \<and>
   compute_corpus_statistics [repeated_document] =
     Inr \<lparr>total_number_of_sentences = 1, total_number_of_words = 3,
          total_number_of_characters = 5,
          average_sentence_length = PFloat (Float 6755399441055744 (- 51)),
          average_word_length = PFloat (Float 4503599627370496 (- 52)),
          type_token_ratio = PFloat (Float 6005099743135819 (- 53)),
          total_unique_words = 2\<rparr> \<and>
   (0::nat) < 3 \<and> quotient 2 3 = PFloat (Float 6004799503160661 (- 53))"
proof -
  have c: "corpus_sentences [repeated_document] = sentences repeated_document"
    "corpus_words [repeated_document] = [ustr ''a'', ustr ''a'', ustr ''b'']"
    by (simp_all add: corpus_sentences_def corpus_words_def repeated_document_def)
  from statistics_never_fail[of "[]" 2 3] statistics_never_fail[of "[repeated_document]" 2 3]
  show ?thesis
    by (simp add: c corpus_sentences_def corpus_words_def repeated_document_def ustr_def
                  float_defs bit_length.simps Let_def List.card_set)
qed

section \<open>Digit runs\<close>

lemma concat_map_hd:
  "concat (map f xs) = y # ys \<Longrightarrow> \<exists>x \<in> set xs. \<exists>zs. f x = y # zs"
proof (induction xs)
  case Nil
  then show ?case by simp
next
  case (Cons x xs)
  show ?case
  proof (cases "f x")
    case Nil
    with Cons show ?thesis by simp
  next
    case (Cons z zs)
    with Cons.prems show ?thesis by simp
  qed
qed

lemma match_at_Seq:
  assumes "match_at U (Seq r1 r2) p s = Some n"
  shows "\<exists>n1 n2. n1 \<in> set (ends U r1 p s) \<and>
           match_at U r2 (prev_cp p s n1) (drop n1 s) = Some n2 \<and> n = n1 + n2"
proof -
  from assms obtain ns where
    "concat (map (\<lambda>n. map ((+) n) (ends U r2 (prev_cp p s n) (drop n s))) (ends U r1 p s)) = n # ns"
    by (auto simp: match_at_def split: list.splits)
  from concat_map_hd[OF this] obtain n1 zs where
    n1: "n1 \<in> set (ends U r1 p s)" and
    z: "map ((+) n1) (ends U r2 (prev_cp p s n1) (drop n1 s)) = n # zs"
    by auto
  from z obtain n2 ms where "ends U r2 (prev_cp p s n1) (drop n1 s) = n2 # ms" "n = n1 + n2"
    by (cases "ends U r2 (prev_cp p s n1) (drop n1 s)") auto
  then have "match_at U r2 (prev_cp p s n1) (drop n1 s) = Some n2 \<and> n = n1 + n2"
    by (simp add: match_at_def)
  with n1 show ?thesis by blast
qed

lemma prev_cp_add: "prev_cp (prev_cp p s n1) (drop n1 s) n2 = prev_cp p s (n1 + n2)"
proof -
  have e: "rev (take (n1 + n2) s) = rev (take n2 (drop n1 s)) @ rev (take n1 s)"
    by (simp add: take_add)
  show ?thesis
    unfolding prev_cp_def e
    by (cases "rev (take n2 (drop n1 s))") (simp_all only: list.case append.simps)
qed

lemma no_split_Seq:
  assumes "no_split U r2"
  shows "no_split U (Seq r1 r2)"
  unfolding no_split_def
proof (intro allI impI)
  fix p s n assume "match_at U (Seq r1 r2) p s = Some n"
  from match_at_Seq[OF this] obtain n1 n2 where
    m: "match_at U r2 (prev_cp p s n1) (drop n1 s) = Some n2" and n: "n = n1 + n2"
    by blast
  from assms m have "\<not> between_digits (prev_cp (prev_cp p s n1) (drop n1 s) n2)
                        (drop n2 (drop n1 s))"
    unfolding no_split_def by blast
  then show "\<not> between_digits (prev_cp p s n) (drop n s)"
    by (simp add: prev_cp_add n add.commute)
qed

lemma no_split_Alt:
  assumes "no_split U r1" "no_split U r2"
  shows "no_split U (Alt r1 r2)"
  unfolding no_split_def
proof (intro allI impI)
  fix p s n assume "match_at U (Alt r1 r2) p s = Some n"
  then have "match_at U r1 p s = Some n \<or> match_at U r2 p s = Some n"
    by (simp add: match_at_Alt split: option.splits)
  with assms show "\<not> between_digits (prev_cp p s n) (drop n s)"
    unfolding no_split_def by blast
qed

lemma between_digits_words:
  "between_digits p s \<Longrightarrow> word_before U p \<and> word_here U s"
  by (auto simp: between_digits_def ascii_digit_def word_before_def word_here_def is_word_def
                 is_alnum_def split: option.splits list.splits)

lemma no_split_WordB: "no_split U WordB"
  unfolding no_split_def
proof (intro allI impI)
  fix p s n assume m: "match_at U WordB p s = Some n"
  then have n: "n = 0" and b: "word_before U p \<noteq> word_here U s"
    by (auto simp: match_at_def split: if_splits)
  from b between_digits_words[of p s U] have "\<not> between_digits p s" by blast
  then show "\<not> between_digits (prev_cp p s n) (drop n s)" by (simp add: n prev_cp_0)
qed

lemma greedy_hd_max:
  "greedy U a lo None s = n # ns \<Longrightarrow> drop n s = [] \<or> \<not> in_atom U a (hd (drop n s))"
proof (induction s arbitrary: lo n ns)
  case Nil
  then show ?case by (simp split: if_splits)
next
  case (Cons c cs)
  show ?case
  proof (cases "in_atom U a c")
    case False
    with Cons.prems show ?thesis by (simp split: if_splits)
  next
    case True
    show ?thesis
    proof (cases "greedy U a (lo - 1) None cs")
      case Nil
      have "lo \<noteq> 0" using Nil greedy_zero_nonempty[of U a None cs] by (cases lo) auto
      with Nil True Cons.prems show ?thesis by simp
    next
      case (Cons m ms)
      with True Cons.prems have "n = Suc m" by simp
      with Cons.IH[OF Cons] show ?thesis by simp
    qed
  qed
qed

lemma prev_cp_in_take:
  assumes "1 \<le> n" "n \<le> length s"
  shows "\<exists>x \<in> set (take n s). prev_cp p s n = Some x"
proof -
  from assms obtain x xs where r: "rev (take n s) = x # xs"
    by (cases "rev (take n s)") auto
  then have "x \<in> set (take n s)" by (metis list.set_intros(1) set_rev)
  with r show ?thesis by (auto simp: prev_cp_def)
qed

lemma no_split_notspace: "no_split U (Greedy (CNot [Space]) lo None)"
  unfolding no_split_def
proof (intro allI impI)
  fix p s n assume "match_at U (Greedy (CNot [Space]) lo None) p s = Some n"
  then obtain ns where "greedy U (CNot [Space]) lo None s = n # ns"
    by (auto simp: match_at_def split: list.splits)
  from greedy_hd_max[OF this] have "drop n s = [] \<or> is_space (hd (drop n s))" by simp
  then show "\<not> between_digits (prev_cp p s n) (drop n s)"
    by (cases "drop n s") (auto simp: between_digits_def ascii_digit_def is_space_def)
qed

lemma no_split_class:
  assumes "1 \<le> lo" "\<And>c. in_atom U a c \<Longrightarrow> \<not> ascii_digit c"
  shows "no_split U (Greedy a lo hi)"
  unfolding no_split_def
proof (intro allI impI)
  fix p s n assume "match_at U (Greedy a lo hi) p s = Some n"
  from match_at_Some[OF this] have n: "n \<in> set (greedy U a lo hi s)" by simp
  from greedy_bounds[OF n] assms(1) have "1 \<le> n" "n \<le> length s" by simp_all
  from prev_cp_in_take[OF this] obtain x where
    x: "x \<in> set (take n s)" "prev_cp p s n = Some x" by blast
  from greedy_take[OF n] x(1) have "in_atom U a x" by blast
  from assms(2)[OF this] show "\<not> between_digits (prev_cp p s n) (drop n s)"
    by (simp add: between_digits_def x(2))
qed

lemma no_split_Atom:
  assumes "\<And>c. in_atom U a c \<Longrightarrow> \<not> ascii_digit c"
  shows "no_split U (Atom a)"
  unfolding no_split_def
proof (intro allI impI)
  fix p s n assume "match_at U (Atom a) p s = Some n"
  then obtain c cs where "s = c # cs" "in_atom U a c" "n = 1"
    by (auto simp: match_at_def split: list.splits if_splits)
  with assms[of c] show "\<not> between_digits (prev_cp p s n) (drop n s)"
    by (simp add: between_digits_def prev_cp_def)
qed

lemma patterns_no_split:
  assumes "patterns k = Some r"
  shows "no_split U r"
proof (cases k)
  case Email
  with assms have r: "r = email_re" by simp
  show ?thesis unfolding r email_re_def cat.simps by (intro no_split_Seq no_split_WordB)
next
  case Url
  with assms have r: "r = url_re" by simp
  show ?thesis
    unfolding r url_re_def cat.simps plus_def star_def
    by (intro no_split_Alt no_split_Seq no_split_notspace)
next
  case Decimal_number
  with assms have r: "r = decimal_number_re" by simp
  show ?thesis
    unfolding r decimal_number_re_def cat.simps by (intro no_split_Seq no_split_WordB)
next
  case Integer
  with assms have r: "r = integer_re" by simp
  show ?thesis unfolding r integer_re_def cat.simps by (intro no_split_Seq no_split_WordB)
next
  case Date
  with assms have r: "r = date_re" by simp
  show ?thesis
    unfolding r date_re_def cat.simps by (intro no_split_Alt no_split_Seq no_split_WordB)
next
  case Punctuation
  with assms have "r = Atom (CSet punctuation_set)" by simp
  moreover have "no_split U (Atom (CSet punctuation_set))"
    by (rule no_split_Atom) (auto simp: punctuation_set_def lits_def ascii_digit_def)
  ultimately show ?thesis by simp
next
  case Gujarati_word
  with assms have "r = Greedy gujarati_char_pattern 1 None" by (simp add: plus_def)
  moreover have "no_split U (Greedy gujarati_char_pattern 1 None)"
    by (rule no_split_class) (auto simp: gujarati_char_pattern_def ascii_digit_def)
  ultimately show ?thesis by simp
next
  case English_word
  with assms have "r = Greedy (CSet [upper, lower]) 1 None" by (simp add: plus_def)
  moreover have "no_split U (Greedy (CSet [upper, lower]) 1 None)"
    by (rule no_split_class) (auto simp: upper_def lower_def ascii_digit_def)
  ultimately show ?thesis by simp
next
  case Whitespace
  with assms have "r = Greedy (CSet [Space]) 1 None" by (simp add: plus_def)
  moreover have "no_split U (Greedy (CSet [Space]) 1 None)"
    by (rule no_split_class) (auto simp: is_space_def ascii_digit_def)
  ultimately show ?thesis by simp
next
  case Other
  with assms show ?thesis by simp
qed

lemma ascii_digit_word: "ascii_digit c \<Longrightarrow> is_decimal U c \<and> is_word U c"
  by (auto simp: ascii_digit_def is_decimal_def is_word_def is_alnum_def)

lemma run_start_match:
  assumes p: "\<not> word_before U p" and ds: "ds \<noteq> []" "list_all ascii_digit ds"
    and post: "case post of [] \<Rightarrow> True | c # _ \<Rightarrow> \<not> is_word U c"
  shows "group_match U pattern_keys p (ds @ post) \<noteq> None"
proof
  assume none: "group_match U pattern_keys p (ds @ post) = None"
  let ?s = "ds @ post"
  let ?n = "length ds"
  from ds obtain d ds' where d: "ds = d # ds'" by (cases ds) auto
  with ds(2) have "ascii_digit d" by simp
  then have "word_here U ?s" by (simp add: d word_here_def ascii_digit_word)
  with p have wb: "word_before U p \<noteq> word_here U ?s" by simp
  have dig: "\<forall>c \<in> set (take ?n ?s). in_atom U (CSet [Digit]) c"
    using ds(2) by (auto simp: list_all_iff ascii_digit_word)
  have n1: "1 \<le> ?n" "?n \<le> length ?s" using ds(1) by (cases ds; simp)+
  from greedy_unbounded_mem[OF n1 dig]
  have mem: "?n \<in> set (greedy U (CSet [Digit]) 1 None ?s)" .
  from prev_cp_in_take[OF n1, of p] obtain x where
    x: "x \<in> set (take ?n ?s)" "prev_cp p ?s ?n = Some x" by blast
  from x(1) ds(2) have "ascii_digit x" by (simp add: list_all_iff)
  then have w: "word_before U (prev_cp p ?s ?n)"
    by (simp add: x(2) word_before_def ascii_digit_word)
  from post have nw: "\<not> word_here U (drop ?n ?s)"
    by (cases post) (simp_all add: word_here_def)
  from w nw have b: "ends U WordB (prev_cp p ?s ?n) (drop ?n ?s) \<noteq> []"
    by (simp only: ends_WordB_nonempty) simp
  have g: "ends U (plus (CSet [Digit])) p ?s = greedy U (CSet [Digit]) 1 None ?s"
    by (simp add: plus_def)
  have inner: "ends U (Seq (plus (CSet [Digit])) WordB) p ?s \<noteq> []"
    unfolding ends_Seq_nonempty g using mem b by blast
  have z: "0 \<in> set (ends U WordB p ?s)" using wb by simp
  have "ends U (Seq WordB (Seq (plus (CSet [Digit])) WordB)) p ?s \<noteq> []"
    unfolding ends_Seq_nonempty[of U WordB]
    using z inner by (intro bexI[of _ 0]) (simp_all only: prev_cp_0 drop_0 simp_thms)
  then have "ends U integer_re p ?s \<noteq> []" by (simp only: integer_re_def cat.simps simp_thms)
  then have "match_at U integer_re p ?s \<noteq> None" by (simp add: match_at_None)
  moreover have "match_at U integer_re p ?s = None"
    by (rule group_match_None[OF none, of Integer]) (simp_all add: pattern_keys_def)
  ultimately show False by simp
qed

lemma match_span:
  assumes gm: "group_match U pattern_keys p (pre @ ds @ post) = Some (k, n)"
    and ds: "list_all ascii_digit ds"
  shows "n \<le> length pre \<or> length pre + length ds \<le> n"
proof (rule ccontr)
  assume "\<not> (n \<le> length pre \<or> length pre + length ds \<le> n)"
  then have lo: "length pre < n" and hi: "n < length pre + length ds" by simp_all
  define j where "j = n - length pre"
  have j: "0 < j" "j < length ds" "n = length pre + j" using lo hi by (simp_all add: j_def)
  let ?s = "pre @ ds @ post"
  have tk: "take n ?s = pre @ take j ds" using j by simp
  have dr: "drop n ?s = drop j ds @ post" using j by simp
  from j obtain x xs where r: "rev (take j ds) = x # xs"
    by (cases "rev (take j ds)") auto
  then have "x \<in> set (take j ds)" by (metis list.set_intros(1) set_rev)
  then have "x \<in> set ds" by (rule in_set_takeD)
  with ds have x: "ascii_digit x" by (simp add: list_all_iff)
  have pc: "prev_cp p ?s n = Some x"
    by (simp only: prev_cp_def tk rev_append r append_Cons list.case)
  from j obtain y ys where d: "drop j ds = y # ys" by (cases "drop j ds") auto
  then have "y \<in> set (drop j ds)" by simp
  then have "y \<in> set ds" by (rule in_set_dropD)
  with ds have y: "ascii_digit y" by (simp add: list_all_iff)
  have bd: "between_digits (prev_cp p ?s n) (drop n ?s)"
    unfolding between_digits_def pc dr d using x y by simp
  from group_match_Some[OF gm] obtain r where
    "patterns k = Some r" "match_at U r p ?s = Some n" by blast
  with patterns_no_split[of k r U] have "\<not> between_digits (prev_cp p ?s n) (drop n ?s)"
    unfolding no_split_def by blast
  with bd show False by simp
qed

lemma findall_digit_run:
  assumes ds: "ds \<noteq> []" "list_all ascii_digit ds"
    and post: "case post of [] \<Rightarrow> True | c # _ \<Rightarrow> \<not> is_word U c"
  shows "(case rev pre of [] \<Rightarrow> \<not> word_before U p | c # _ \<Rightarrow> \<not> is_word U c) \<Longrightarrow>
    \<exists>segs1 k a b segs2.
      findall U p (pre @ ds @ post) =
        map (\<lambda>(k, t). group_tuple k t) (segs1 @ (k, a @ ds @ b) # segs2) \<and>
      (\<forall>(k, t) \<in> set (segs1 @ (k, a @ ds @ b) # segs2). k \<in> set pattern_keys \<and> t \<noteq> []) \<and>
      subseq (concat (map snd segs1) @ a) pre \<and>
      subseq (b @ concat (map snd segs2)) post"
proof (induction "length pre" arbitrary: p pre rule: less_induct)
  case less
  let ?s = "pre @ ds @ post"
  from ds(1) obtain c cs where s: "?s = c # cs" by (cases ?s) auto
  show ?case
  proof (cases "group_match U pattern_keys p ?s")
    case None
    show ?thesis
    proof (cases pre)
      case Nil
      with less.prems have "\<not> word_before U p" by simp
      from run_start_match[OF this ds post] None Nil show ?thesis by simp
    next
      case (Cons x pre')
      with s have c: "c = x" and cs: "cs = pre' @ ds @ post" by simp_all
      have left: "case rev pre' of [] \<Rightarrow> \<not> word_before U (Some c) | y # _ \<Rightarrow> \<not> is_word U y"
        using less.prems
        by (cases "rev pre'") (simp_all add: Cons c word_before_def)
      have "length pre' < length pre" by (simp add: Cons)
      from less.hyps[OF this left] obtain segs1 k a b segs2 where
        h: "findall U (Some c) (pre' @ ds @ post) =
              map (\<lambda>(k, t). group_tuple k t) (segs1 @ (k, a @ ds @ b) # segs2)"
          "\<forall>(k, t) \<in> set (segs1 @ (k, a @ ds @ b) # segs2). k \<in> set pattern_keys \<and> t \<noteq> []"
          "subseq (concat (map snd segs1) @ a) pre'"
          "subseq (b @ concat (map snd segs2)) post"
        by blast
      have fa: "findall U p ?s = findall U (Some c) (pre' @ ds @ post)"
        using None unfolding s by (simp add: cs)
      have "subseq (concat (map snd segs1) @ a) pre"
        using subseq_drop_many[OF h(3), of "[x]"] by (simp add: Cons)
      with h fa show ?thesis by metis
    qed
  next
    case (Some kn)
    obtain k n where kn: "kn = (k, n)" by (cases kn)
    with Some have gm: "group_match U pattern_keys p ?s = Some (k, n)" by simp
    from group_match_bounds[OF gm]
    have k: "k \<in> set pattern_keys" and n: "1 \<le> n" "n \<le> length ?s" by simp_all
    have n0: "n \<noteq> 0" using n by simp
    have tn: "take n ?s \<noteq> []" using n0 s by (cases n) simp_all
    have fa: "findall U p ?s =
                group_tuple k (take n ?s) # findall U (prev_cp p ?s n) (drop n ?s)"
      using gm n0 unfolding s by simp
    from match_span[OF gm ds(2)] show ?thesis
    proof
      assume le: "n \<le> length pre"
      define pre' where "pre' = drop n pre"
      have tk: "take n ?s = take n pre" and dr: "drop n ?s = pre' @ ds @ post"
        using le by (simp_all add: pre'_def)
      have pre: "pre = take n pre @ pre'" by (simp add: pre'_def)
      have rv: "rev pre = rev pre' @ rev (take n pre)"
        by (subst pre) (simp only: rev_append)
      have tne: "take n pre \<noteq> []" using n(1) le by (cases pre; cases n) auto
      then obtain y ys where ry: "rev (take n pre) = y # ys"
        by (cases "rev (take n pre)") auto
      have pc: "prev_cp p ?s n = Some y" by (simp only: prev_cp_def tk ry list.case)
      have left: "case rev pre' of [] \<Rightarrow> \<not> word_before U (prev_cp p ?s n)
                    | z # _ \<Rightarrow> \<not> is_word U z"
        using less.prems unfolding rv pc
        by (cases "rev pre'") (simp_all add: ry word_before_def)
      have "length pre' < length pre" using n le by (simp add: pre'_def)
      from less.hyps[OF this left] obtain segs1 k' a b segs2 where
        h: "findall U (prev_cp p ?s n) (pre' @ ds @ post) =
              map (\<lambda>(k, t). group_tuple k t) (segs1 @ (k', a @ ds @ b) # segs2)"
          "\<forall>(k, t) \<in> set (segs1 @ (k', a @ ds @ b) # segs2). k \<in> set pattern_keys \<and> t \<noteq> []"
          "subseq (concat (map snd segs1) @ a) pre'"
          "subseq (b @ concat (map snd segs2)) post"
        by blast
      let ?segs1 = "(k, take n pre) # segs1"
      have f: "findall U p ?s =
                 map (\<lambda>(k, t). group_tuple k t) (?segs1 @ (k', a @ ds @ b) # segs2)"
        by (simp only: fa tk dr h(1)) simp
      have v: "\<forall>(k, t) \<in> set (?segs1 @ (k', a @ ds @ b) # segs2). k \<in> set pattern_keys \<and> t \<noteq> []"
        using h(2) k tne by simp
      have "subseq (take n pre @ (concat (map snd segs1) @ a)) (take n pre @ pre')"
        using h(3) by (simp only: subseq_append')
      then have sb: "subseq (concat (map snd ?segs1) @ a) pre"
        using pre by simp
      from f v sb h(4) show ?thesis by blast
    next
      assume ge: "length pre + length ds \<le> n"
      define m where "m = n - (length pre + length ds)"
      have tk: "take n ?s = pre @ ds @ take m post" and dr: "drop n ?s = drop m post"
        using ge by (simp_all add: m_def)
      from findall_segments[of U "prev_cp p ?s n" "drop m post"] obtain segs2 where
        g: "findall U (prev_cp p ?s n) (drop m post) = map (\<lambda>(k, t). group_tuple k t) segs2"
          "\<forall>(k, t) \<in> set segs2. k \<in> set pattern_keys \<and> t \<noteq> []"
          "subseq (concat (map snd segs2)) (drop m post)"
        by blast
      have f: "findall U p ?s =
                 map (\<lambda>(k, t). group_tuple k t) ([] @ (k, pre @ ds @ take m post) # segs2)"
        by (simp only: fa tk dr g(1)) simp
      have v: "\<forall>(k, t) \<in> set ([] @ (k, pre @ ds @ take m post) # segs2).
                 k \<in> set pattern_keys \<and> t \<noteq> []"
        using g(2) k ds(1) by simp
      have "subseq (take m post @ concat (map snd segs2)) (take m post @ drop m post)"
        using g(3) by (simp only: subseq_append')
      then have sb: "subseq (take m post @ concat (map snd segs2)) post" by simp
      have sa: "subseq (concat (map snd []) @ pre) pre" by simp
      from f v sa sb show ?thesis by blast
    qed
  qed
qed

lemma word_tokenize_digit_run:
  assumes "isolated_digits U pre ds post"
  shows "\<exists>ts1 a b ts2.
      word_tokenize U (pre @ ds @ post) = Inr (ts1 @ (a @ ds @ b) # ts2) \<and>
      subseq (concat ts1 @ a) pre \<and> subseq (b @ concat ts2) post"
proof -
  from assms have ds: "ds \<noteq> []" "list_all ascii_digit ds"
    and post: "case post of [] \<Rightarrow> True | c # _ \<Rightarrow> \<not> is_word U c"
    and left: "case rev pre of [] \<Rightarrow> \<not> word_before U None | c # _ \<Rightarrow> \<not> is_word U c"
    by (auto simp: isolated_digits_def word_before_def split: list.splits)
  from findall_digit_run[OF ds post left] obtain segs1 k a b segs2 where
    h: "findall U None (pre @ ds @ post) =
          map (\<lambda>(k, t). group_tuple k t) (segs1 @ (k, a @ ds @ b) # segs2)"
      "\<forall>(k, t) \<in> set (segs1 @ (k, a @ ds @ b) # segs2). k \<in> set pattern_keys \<and> t \<noteq> []"
      "subseq (concat (map snd segs1) @ a) pre"
      "subseq (b @ concat (map snd segs2)) post"
    by blast
  define keep where "keep = (\<lambda>t. re_match U whitespace_only t = None)"
  define ts1 where "ts1 = filter keep (map snd segs1)"
  define ts2 where "ts2 = filter keep (map snd segs2)"
  from ds obtain d where d: "d \<in> set ds" "ascii_digit d" by (cases ds) auto
  have k: "keep (a @ ds @ b)"
  proof (rule ccontr)
    assume "\<not> keep (a @ ds @ b)"
    then have "re_match U whitespace_only (a @ ds @ b) \<noteq> None" by (simp add: keep_def)
    from whitespace_only_all_space[OF this] d(1) have "is_space d" by simp
    with d(2) show False by (auto simp: is_space_def ascii_digit_def)
  qed
  have "word_tokenize U (pre @ ds @ post) =
      Inr ([] @ filter keep (map snd (segs1 @ (k, a @ ds @ b) # segs2)))"
    unfolding word_tokenize_def h(1) keep_def by (rule token_loop_segments[OF h(2)])
  also have "[] @ filter keep (map snd (segs1 @ (k, a @ ds @ b) # segs2)) = ts1 @ (a @ ds @ b) # ts2"
    using k by (simp add: ts1_def ts2_def)
  finally have wt: "word_tokenize U (pre @ ds @ post) = Inr (ts1 @ (a @ ds @ b) # ts2)" .
  have "subseq (concat ts1 @ a) (concat (map snd segs1) @ a)"
    unfolding ts1_def by (intro list_emb_append_mono subseq_concat_filter) simp
  from subseq_order.trans[OF this h(3)] have s1: "subseq (concat ts1 @ a) pre" .
  have "subseq (b @ concat ts2) (b @ concat (map snd segs2))"
    unfolding ts2_def by (intro list_emb_append_mono subseq_concat_filter) simp
  from subseq_order.trans[OF this h(4)] have s2: "subseq (b @ concat ts2) post" .
  from wt s1 s2 show ?thesis by blast
qed

section \<open>Word tokenization\<close>

text \<open>
  C2, as the specification states it: no character of the input that is a Gujarati
  character, an ASCII letter, a digit or a listed punctuation symbol is lost by
  \<open>word_tokenize\<close>. At the input \<open>a1\<close> the digit is lost: the only token is \<open>a\<close>.
  The numeric rules need a word boundary before the digit, and no other rule matches at
  this digit.
\<close>

theorem digit_after_letter_is_lost:
  "word_tokenize no_ext (ustr ''a1'') = Inr [ustr ''a''] \<and>
   of_char CHR ''1'' \<in> set (ustr ''a1'') \<and>
   of_char CHR ''1'' \<notin> set (concat [ustr ''a''])"
  by (simp add: eval_defs no_ext_def)

text \<open>
  C2, amended. For every text \<open>word_tokenize\<close> returns a sequence of non-empty tokens
  whose concatenation is a subsequence of the text. The characters of the text that
  are ASCII letters, characters of the Gujarati block or listed punctuation symbols
  are exactly those of the tokens, in the same order: none of them is lost, and the
  result is non-empty when the text has such a character. Every run of ASCII digits
  that has no word character directly before it and none directly after it is kept:
  it lies as a whole inside one returned token, at its place in the text (the tokens
  before it and the part of its token before it are taken from the text before the
  run, the part of its token after it and the tokens after it from the text after
  the run). So the result is non-empty when the text has such a run, and a digit can
  be lost only in a run that touches a word character, as in \<open>a1\<close>.
\<close>

theorem word_tokenize_keeps_letters:
  "\<exists>ts. word_tokenize U s = Inr ts \<and> [] \<notin> set ts \<and> subseq (concat ts) s \<and>
        filter (lettered U) (concat ts) = filter (lettered U) s \<and>
        ((\<exists>c \<in> set s. lettered U c) \<longrightarrow> ts \<noteq> []) \<and>
        (\<forall>pre ds post. s = pre @ ds @ post \<and> isolated_digits U pre ds post \<longrightarrow>
           (\<exists>ts1 a b ts2. ts = ts1 @ (a @ ds @ b) # ts2 \<and>
              subseq (concat ts1 @ a) pre \<and> subseq (b @ concat ts2) post))"
proof -
  from word_tokenize_tokens[of U s] obtain ts where
    ts: "word_tokenize U s = Inr ts" "[] \<notin> set ts" "subseq (concat ts) s"
      "filter (lettered U) (concat ts) = filter (lettered U) s"
    by blast
  have ne: "(\<exists>c \<in> set s. lettered U c) \<longrightarrow> ts \<noteq> []"
  proof
    assume "\<exists>c \<in> set s. lettered U c"
    then have "filter (lettered U) s \<noteq> []" by (simp add: filter_empty_conv)
    with ts(4) show "ts \<noteq> []" by auto
  qed
  have dg: "\<forall>pre ds post. s = pre @ ds @ post \<and> isolated_digits U pre ds post \<longrightarrow>
           (\<exists>ts1 a b ts2. ts = ts1 @ (a @ ds @ b) # ts2 \<and>
              subseq (concat ts1 @ a) pre \<and> subseq (b @ concat ts2) post)"
  proof (intro allI impI)
    fix pre ds post assume a: "s = pre @ ds @ post \<and> isolated_digits U pre ds post"
    from word_tokenize_digit_run[of U pre ds post] a ts(1)
    show "\<exists>ts1 a b ts2. ts = ts1 @ (a @ ds @ b) # ts2 \<and>
              subseq (concat ts1 @ a) pre \<and> subseq (b @ concat ts2) post"
      by auto
  qed
  from ts ne dg show ?thesis by blast
qed

theorem word_tokenize_keeps_letters_witness:
  "(\<exists>c \<in> set (ustr ''ab, 12''). lettered no_ext c) \<and>
   ustr ''ab, 12'' = ustr ''ab, '' @ ustr ''12'' @ [] \<and>
   isolated_digits no_ext (ustr ''ab, '') (ustr ''12'') [] \<and>
   word_tokenize no_ext (ustr ''ab, 12'') = Inr [ustr ''ab'', ustr '','', ustr ''12''] \<and>
   (\<exists>ts1 a b ts2. [ustr ''ab'', ustr '','', ustr ''12''] = ts1 @ (a @ ustr ''12'' @ b) # ts2 \<and>
      subseq (concat ts1 @ a) (ustr ''ab, '') \<and> subseq (b @ concat ts2) [])"
proof -
  have "filter (lettered no_ext) (ustr ''ab, 12'') = ustr ''ab,''"
    by (simp add: lettered_def eval_defs)
  then have l: "\<exists>c \<in> set (ustr ''ab, 12''). lettered no_ext c"
    by (metis filter_empty_conv list.distinct(1) list.map_disc_iff ustr_def)
  have sp: "ustr ''ab, 12'' = ustr ''ab, '' @ ustr ''12'' @ []" by (simp add: ustr_def)
  have i: "isolated_digits no_ext (ustr ''ab, '') (ustr ''12'') []"
    by (simp add: isolated_digits_def ascii_digit_def eval_defs)
  have w: "word_tokenize no_ext (ustr ''ab, 12'') = Inr [ustr ''ab'', ustr '','', ustr ''12'']"
    by (simp add: eval_defs)
  from word_tokenize_keeps_letters[of no_ext "ustr ''ab, 12''"] obtain ts where
    ts: "word_tokenize no_ext (ustr ''ab, 12'') = Inr ts"
      "(\<exists>c \<in> set (ustr ''ab, 12''). lettered no_ext c) \<longrightarrow> ts \<noteq> []"
      "\<forall>pre ds post. ustr ''ab, 12'' = pre @ ds @ post \<and> isolated_digits no_ext pre ds post \<longrightarrow>
           (\<exists>ts1 a b ts2. ts = ts1 @ (a @ ds @ b) # ts2 \<and>
              subseq (concat ts1 @ a) pre \<and> subseq (b @ concat ts2) post)"
    by blast
  from ts(1) w have e: "ts = [ustr ''ab'', ustr '','', ustr ''12'']" by simp
  from ts(3) sp i have "\<exists>ts1 a b ts2. ts = ts1 @ (a @ ustr ''12'' @ b) # ts2 \<and>
      subseq (concat ts1 @ a) (ustr ''ab, '') \<and> subseq (b @ concat ts2) []"
    by blast
  with e l sp i w show ?thesis by simp
qed

section \<open>Classification\<close>

text \<open>
  C1. \<open>classify_token\<close> is a total function of the token: it returns one of the nine
  categories (never \<open>whitespace\<close>), namely the first rule in the order email, url,
  decimal\_number, date, integer, punctuation, gujarati\_word, english\_word whose
  anchored match succeeds on the token, and \<open>other\<close> when none of the eight matches.
\<close>

theorem classify_token_first_rule:
  "classify_token U token = first_rule U token \<and>
   classify_token U token \<in> {Email, Url, Decimal_number, Integer, Date, Punctuation,
                              Gujarati_word, English_word, Other}"
  by (simp add: classify_token_def first_rule_def precedence_def)

text \<open>
  C5, as the specification states it: \<open>classify_token("123abc")\<close> is \<open>integer\<close>.
  It is not: the integer rule ends in a word boundary, and there is none between
  \<open>3\<close> and \<open>a\<close>.
\<close>

theorem classify_123abc_not_integer:
  "classify_token no_ext (ustr ''123abc'') \<noteq> Integer"
  by (simp add: eval_defs)

text \<open>
  C5, amended. The rules are matched at the start of the token and need not take all
  of it: the integer rule takes the first three characters of \<open>123-abc\<close>, and
  \<open>classify_token\<close> returns \<open>integer\<close> for it. For \<open>123abc\<close> no rule matches and the
  result is \<open>other\<close>.
\<close>

theorem classify_prefix_match:
  "re_match U integer_re (ustr ''123-abc'') = Some 3 \<and>
   classify_token U (ustr ''123-abc'') = Integer \<and>
   re_match U integer_re (ustr ''123abc'') = None \<and>
   classify_token U (ustr ''123abc'') = Other"
  by (simp add: eval_defs)

text \<open>
  C7. \<open>word_tokenize("3.14")\<close> is the one token \<open>3.14\<close>, and \<open>classify_token\<close> returns
  \<open>decimal_number\<close> for it, although the integer rule matches it as well: the
  decimal rule is tried first.
\<close>

theorem decimal_before_integer:
  "word_tokenize U (ustr ''3.14'') = Inr [ustr ''3.14''] \<and>
   classify_token U (ustr ''3.14'') = Decimal_number \<and>
   matches U Integer (ustr ''3.14'')"
  by (simp add: eval_defs)

text \<open>
  C6, at the input \<open>25/07/2025\<close>: \<open>classify_token\<close> returns \<open>date\<close> for the whole
  string, but \<open>word_tokenize\<close> returns five tokens, because the alternation of
  \<open>token_pattern\<close> tries the integer rule before the date rule. Wherever the date rule
  matches, the integer rule matches as well, so that no match of \<open>token_pattern\<close> is
  ever a match of its date group, at any position of any text.
\<close>

theorem date_is_split_by_word_tokenize:
  "word_tokenize U (ustr ''25/07/2025'') =
     Inr [ustr ''25'', ustr ''/'', ustr ''07'', ustr ''/'', ustr ''2025''] \<and>
   classify_token U (ustr ''25/07/2025'') = Date \<and>
   group_match U pattern_keys p s \<noteq> Some (Date, n)"
  using date_never_tokenized[of U p s n] by (simp add: eval_defs)

section \<open>The example paragraph\<close>

text \<open>
  C4, as the specification states it: \<open>sentence_tokenize\<close> returns exactly three
  sentences for the example paragraph. It returns four.
\<close>

theorem example_paragraph_not_three_sentences:
  "length (sentence_tokenize no_ext example_paragraph) \<noteq> 3"
  by (simp add: eval_defs example_paragraph_def no_ext_def)

text \<open>
  C4, amended. \<open>sentence_tokenize\<close> returns four sentences for the example paragraph:
  the full stop inside \<open>test@example.com\<close> ends a sentence like any other, so that the
  third sentence stops after \<open>test@example\<close> and the fourth starts with \<open>com\<close>.
  \<open>word_tokenize\<close> applied to the sentence as the specification writes it returns two
  Gujarati tokens, \<open>test@example.com\<close> and one more Gujarati token; \<open>classify_token\<close>
  labels the third \<open>email\<close> and the others \<open>gujarati_word\<close>.
\<close>

theorem example_paragraph_four_sentences:
  "sentence_tokenize U example_paragraph =
     [[0xA86, 0xA9C, 0xAC7, 0x20, 0xAB9, 0xAC1, 0xA82, 0x20, 0xAA6, 0xAC1, 0xA95, 0xABE, 0xAA8,
       0xAC7, 0x20, 0xA97, 0xAAF, 0xACB],
      [0xAAE, 0xAC7, 0xA82, 0x20, 0xA96, 0xABE, 0xAA3, 0xABE, 0xAA8, 0xAC0, 0x20, 0xAB5, 0xAB8,
       0xACD, 0xAA4, 0xAC1, 0xA93, 0x20, 0xA96, 0xAB0, 0xAC0, 0xAA6, 0xAC0],
      [0xAAE, 0xABE, 0xAB0, 0xAC1, 0xA82, 0x20, 0xA87, 0xAAE, 0xAC7, 0xA87, 0xAB2, 0x20]
        @ ustr ''test@example'',
      ustr ''com'' @ [0x20, 0xA9B, 0xAC7]] \<and>
   word_tokenize U example_sentence =
     Inr [[0xAAE, 0xABE, 0xAB0, 0xAC1, 0xA82], [0xA87, 0xAAE, 0xAC7, 0xA87, 0xAB2],
          ustr ''test@example.com'', [0xA9B, 0xAC7]] \<and>
   map (classify_token U)
     [[0xAAE, 0xABE, 0xAB0, 0xAC1, 0xA82], [0xA87, 0xAAE, 0xAC7, 0xA87, 0xAB2],
      ustr ''test@example.com'', [0xA9B, 0xAC7]] =
     [Gujarati_word, Gujarati_word, Email, Gujarati_word]"
  by (simp add: eval_defs example_paragraph_def example_sentence_def)

end
